theory Spec2Isabelle
  imports Main "HOL-Library.Multiset" "HOL-Library.Sublist" "HOL-Library.AList"
begin

section \<open>Data model\<close>

text \<open>
  A Python character is modelled by its code point, so that \<open>ord\<close> is the identity and
  \<open>chr\<close> is the identity below its bound; a Python \<open>str\<close> is the list of its characters.
  Bitstrings are ordinary strings over the characters \<open>"0"\<close> (48) and \<open>"1"\<close> (49).
\<close>

type_synonym pychar = nat
type_synonym pystr = "pychar list"

definition str :: "string \<Rightarrow> pystr" where
  "str s = map of_char s"

abbreviation bit0 :: pychar where "bit0 \<equiv> 48"
abbreviation bit1 :: pychar where "bit1 \<equiv> 49"
abbreviation ord_A :: pychar where "ord_A \<equiv> 65"
abbreviation space :: pychar where "space \<equiv> 32"

datatype error = IndexError | KeyError | TypeError | AttributeError | ValueError
  | AssertionError

text \<open>
  Class \<open>Node\<close> of \<open>Huffman.py\<close>: a frequency, an optional symbol and two optional
  children. \<open>Greedy_Alg.py\<close> imports its \<open>Node\<close> from a module of the same name; it
  is taken to be this class. Nodes are never mutated after their children are set and
  are never compared by identity, so a node is a value.
\<close>

datatype node = Node (get_frequency: int) (get_symbol: "pychar option")
  (get_left: "node option") (get_right: "node option")

text \<open>\<open>Node.__lt__\<close>: strict comparison of the frequencies.\<close>

definition lt :: "node \<Rightarrow> node \<Rightarrow> bool" where
  "lt self other = (get_frequency self < get_frequency other)"

text \<open>\<open>chr\<close> raises \<open>ValueError\<close> outside the range of code points.\<close>

definition chr :: "nat \<Rightarrow> error + pychar" where
  "chr n = (if n < 1114112 then Inr n else Inl ValueError)"

text \<open>The position that a Python list of \<open>n\<close> elements gives to the subscript \<open>i\<close>:
  a subscript from \<open>-n\<close> to \<open>-1\<close> counts from the end, and there is no position
  (\<open>IndexError\<close>) for a subscript outside \<open>-n\<close> to \<open>n - 1\<close>.\<close>

definition py_index :: "nat \<Rightarrow> int \<Rightarrow> nat option" where
  "py_index n i =
     (if 0 \<le> i \<and> i < int n then Some (nat i)
      else if - int n \<le> i \<and> i < 0 then Some (nat (int n + i))
      else None)"

definition list_get :: "'a list \<Rightarrow> int \<Rightarrow> error + 'a" where
  "list_get xs i =
     (case py_index (length xs) i of None \<Rightarrow> Inl IndexError | Some j \<Rightarrow> Inr (xs ! j))"

definition list_set :: "'a list \<Rightarrow> int \<Rightarrow> 'a \<Rightarrow> error + 'a list" where
  "list_set xs i v =
     (case py_index (length xs) i of None \<Rightarrow> Inl IndexError | Some j \<Rightarrow> Inr (xs[j := v]))"

text \<open>\<open>list.pop(i)\<close> for a non-negative index: the element and the list without it.\<close>

definition pop :: "'a list \<Rightarrow> nat \<Rightarrow> error + ('a \<times> 'a list)" where
  "pop xs i = (if i < length xs then Inr (xs ! i, take i xs @ drop (Suc i) xs)
               else Inl IndexError)"

section \<open>Huffman.py\<close>

subsection \<open>Frequencies and the initial forest\<close>

definition ASCII_SYMBOLS :: nat where
  "ASCII_SYMBOLS = 256"

fun frequency_loop :: "pystr \<Rightarrow> int list \<Rightarrow> error + int list" where
  "frequency_loop [] frequencies = Inr frequencies"
| "frequency_loop (char # message) frequencies =
     (case list_get frequencies (int char) of
        Inl e \<Rightarrow> Inl e
      | Inr old \<Rightarrow>
          (case list_set frequencies (int char) (old + 1) of
             Inl e \<Rightarrow> Inl e
           | Inr frequencies' \<Rightarrow> frequency_loop message frequencies'))"

definition frequency_of_symbols :: "pystr \<Rightarrow> error + int list" where
  "frequency_of_symbols message = frequency_loop message (replicate ASCII_SYMBOLS 0)"

text \<open>\<open>create_forest\<close>: the loop over \<open>range(len(frequencies))\<close>, with the forest
  built so far as accumulator.\<close>

fun create_forest_loop :: "int list \<Rightarrow> nat list \<Rightarrow> node list \<Rightarrow> error + node list" where
  "create_forest_loop frequencies [] forest = Inr forest"
| "create_forest_loop frequencies (ascii_val # rest) forest =
     (if frequencies ! ascii_val > 0 then
        (case chr ascii_val of
           Inl e \<Rightarrow> Inl e
         | Inr c \<Rightarrow> create_forest_loop frequencies rest
                     (forest @ [Node (frequencies ! ascii_val) (Some c) None None]))
      else create_forest_loop frequencies rest forest)"

definition create_forest :: "int list \<Rightarrow> error + node list" where
  "create_forest frequencies = create_forest_loop frequencies [0..<length frequencies] []"

subsection \<open>Minimum extraction and tree construction\<close>

text \<open>\<open>get_smallest\<close> is the same function in both files: a scan that keeps the index
  of the first strictly smaller node, then \<open>forest.pop\<close> of that index (which raises on
  an empty forest).\<close>

definition smallest_index :: "node list \<Rightarrow> nat" where
  "smallest_index forest =
     fold (\<lambda>i smallest. if lt (forest ! i) (forest ! smallest) then i else smallest)
       [1..<length forest] 0"

definition get_smallest :: "node list \<Rightarrow> error + (node \<times> node list)" where
  "get_smallest forest = pop forest (smallest_index forest)"

text \<open>The body of the \<open>while\<close> loop, the same in \<open>huffman\<close> and \<open>build_huffman_tree\<close>:
  two extractions, a new internal node with the first as left child and the second as
  right child, appended to the forest.\<close>

definition new_node :: "node \<Rightarrow> node \<Rightarrow> node" where
  "new_node s1 s2 = Node (get_frequency s1 + get_frequency s2) None (Some s1) (Some s2)"

definition merge_step :: "node list \<Rightarrow> error + node list" where
  "merge_step forest =
     (case get_smallest forest of
        Inl e \<Rightarrow> Inl e
      | Inr (s1, forest1) \<Rightarrow>
          (case get_smallest forest1 of
             Inl e \<Rightarrow> Inl e
           | Inr (s2, forest2) \<Rightarrow> Inr (forest2 @ [new_node s1 s2])))"

function merge_loop :: "node list \<Rightarrow> error + node" where
  "merge_loop forest =
     (if length forest > 1 then
        (case merge_step forest of
           Inl e \<Rightarrow> Inl e
         | Inr forest' \<Rightarrow> merge_loop forest')
      else (case forest of [] \<Rightarrow> Inl IndexError | root # _ \<Rightarrow> Inr root))"
  by pat_completeness auto
termination
  by (relation "measure length")
    (auto simp: merge_step_def get_smallest_def pop_def split: sum.splits if_splits)

definition huffman :: "node list \<Rightarrow> error + node option" where
  "huffman forest =
     (if length forest = 0 then Inr None
      else (case merge_loop forest of Inl e \<Rightarrow> Inl e | Inr root \<Rightarrow> Inr (Some root)))"

subsection \<open>Code table, encoder, reverse table, decoder\<close>

text \<open>A \<open>dict\<close> is an association list in insertion order; \<open>d[k] = v\<close> is
  \<open>AList.update\<close> (an existing key keeps its place, a new one goes to the end) and a
  lookup is \<open>map_of\<close>.\<close>

type_synonym ('k, 'v) dict = "('k \<times> 'v) list"

fun traverse :: "node option \<Rightarrow> pystr \<Rightarrow> (pychar, pystr) dict \<Rightarrow> (pychar, pystr) dict" where
  "traverse None current_code table = table"
| "traverse (Some (Node f sy l r)) current_code table =
     (case sy of
        Some symbol \<Rightarrow> AList.update symbol current_code table
      | None \<Rightarrow> traverse r (current_code @ [bit1]) (traverse l (current_code @ [bit0]) table))"

definition build_encoding_table :: "node option \<Rightarrow> (pychar, pystr) dict" where
  "build_encoding_table root = traverse root [] []"

fun encode_with_table :: "pystr \<Rightarrow> (pychar, pystr) dict \<Rightarrow> error + pystr" where
  "encode_with_table [] table = Inr []"
| "encode_with_table (char # message) table =
     (case map_of table char of
        None \<Rightarrow> Inl KeyError
      | Some code \<Rightarrow>
          (case encode_with_table message table of
             Inl e \<Rightarrow> Inl e
           | Inr rest \<Rightarrow> Inr (code @ rest)))"

definition build_reverse_table :: "(pychar, pystr) dict \<Rightarrow> (pystr, pychar) dict" where
  "build_reverse_table table = fold (\<lambda>(symbol, code) rt. AList.update code symbol rt) table []"

fun decode_with_table_loop ::
  "pystr \<Rightarrow> (pystr, pychar) dict \<Rightarrow> pystr \<Rightarrow> pystr \<Rightarrow> pystr" where
  "decode_with_table_loop [] reverse_table decoded current_bits = decoded"
| "decode_with_table_loop (b # rest) reverse_table decoded current_bits =
     (case map_of reverse_table (current_bits @ [b]) of
        Some symbol \<Rightarrow> decode_with_table_loop rest reverse_table (decoded @ [symbol]) []
      | None \<Rightarrow> decode_with_table_loop rest reverse_table decoded (current_bits @ [b]))"

definition decode_with_table :: "pystr \<Rightarrow> (pystr, pychar) dict \<Rightarrow> pystr" where
  "decode_with_table encoded_message reverse_table =
     decode_with_table_loop encoded_message reverse_table [] []"

section \<open>Greedy\_Alg.py\<close>

text \<open>\<open>get_smallest\<close> and the \<open>while\<close> loop of \<open>build_huffman_tree\<close> have the text of
  those of \<open>Huffman.py\<close> and share their definitions. \<open>traverse\<close> and
  \<open>build_encoding_table\<close> differ between the files; those of this file carry the prefix
  \<open>greedy_\<close>.\<close>

fun count_loop :: "pystr \<Rightarrow> int list \<Rightarrow> error + int list" where
  "count_loop [] frequencies = Inr frequencies"
| "count_loop (char # input_string) frequencies =
     (let index = (if char = space then 26 else int char - int ord_A) in
      case list_get frequencies index of
        Inl e \<Rightarrow> Inl e
      | Inr old \<Rightarrow>
          (case list_set frequencies index (old + 1) of
             Inl e \<Rightarrow> Inl e
           | Inr frequencies' \<Rightarrow> count_loop input_string frequencies'))"

definition count_frequencies :: "pystr \<Rightarrow> error + int list" where
  "count_frequencies input_string = count_loop input_string (replicate 27 0)"

fun initialize_forest_loop :: "(nat \<times> int) list \<Rightarrow> node list \<Rightarrow> error + node list" where
  "initialize_forest_loop [] forest = Inr forest"
| "initialize_forest_loop ((i, freq) # rest) forest =
     (if freq > 0 then
        (case (if i = 26 then Inr space else chr (i + ord_A)) of
           Inl e \<Rightarrow> Inl e
         | Inr symbol \<Rightarrow>
             initialize_forest_loop rest (forest @ [Node freq (Some symbol) None None]))
      else initialize_forest_loop rest forest)"

definition initialize_forest :: "int list \<Rightarrow> error + node list" where
  "initialize_forest frequencies = initialize_forest_loop (enumerate 0 frequencies) []"

definition build_huffman_tree :: "int list \<Rightarrow> error + node option" where
  "build_huffman_tree frequencies =
     (case initialize_forest frequencies of
        Inl e \<Rightarrow> Inl e
      | Inr forest \<Rightarrow>
          if length forest = 0 then Inr None
          else (case merge_loop forest of Inl e \<Rightarrow> Inl e | Inr root \<Rightarrow> Inr (Some root)))"

text \<open>The table of \<open>Greedy_Alg.py\<close> is a list of 27 strings, written by index:
  \<open>26 if symbol == " " else ord(symbol) - ord("A")\<close>.\<close>

definition table_index :: "pychar \<Rightarrow> int" where
  "table_index symbol = (if symbol = space then 26 else int symbol - int ord_A)"

fun greedy_traverse :: "node option \<Rightarrow> pystr \<Rightarrow> pystr list \<Rightarrow> error + pystr list" where
  "greedy_traverse None code table = Inr table"
| "greedy_traverse (Some (Node f sy l r)) code table =
     (case sy of
        Some symbol \<Rightarrow>
          list_set table (table_index symbol) code
      | None \<Rightarrow>
          (case greedy_traverse l (code @ [bit0]) table of
             Inl e \<Rightarrow> Inl e
           | Inr table' \<Rightarrow> greedy_traverse r (code @ [bit1]) table'))"

definition greedy_build_encoding_table :: "node option \<Rightarrow> error + pystr list" where
  "greedy_build_encoding_table huffman_tree_root =
     greedy_traverse huffman_tree_root [] (replicate 27 [])"

text \<open>\<open>encode\<close>: a space reads \<open>encoding_table[26]\<close>; any other character subscripts
  the function \<open>build_encoding_table\<close> itself, which raises \<open>TypeError\<close>.\<close>

fun encode_loop :: "pystr \<Rightarrow> pystr list \<Rightarrow> pystr list \<Rightarrow> error + pystr list" where
  "encode_loop [] encoding_table encoded = Inr encoded"
| "encode_loop (char # input_string) encoding_table encoded =
     (if char = space then
        (case list_get encoding_table 26 of
           Inl e \<Rightarrow> Inl e
         | Inr code \<Rightarrow> encode_loop input_string encoding_table (encoded @ [code]))
      else Inl TypeError)"

definition encode :: "pystr \<Rightarrow> pystr list \<Rightarrow> error + pystr" where
  "encode input_string encoding_table =
     (case encode_loop input_string encoding_table [] of
        Inl e \<Rightarrow> Inl e
      | Inr encoded \<Rightarrow> Inr (concat encoded))"

text \<open>\<open>decode\<close>: the loop appends the bound method \<open>current.get_symbol\<close> (not its
  result); an entry of \<open>decoded\<close> is modelled by the node the method is bound to.
  \<open>"".join\<close> of a list holding anything but strings raises \<open>TypeError\<close>; a method call
  on \<open>None\<close> raises \<open>AttributeError\<close>.\<close>

definition step_bit :: "pychar \<Rightarrow> node option \<Rightarrow> error + node option" where
  "step_bit b current =
     (if b = bit0 then
        (case current of None \<Rightarrow> Inl AttributeError | Some c \<Rightarrow> Inr (get_left c))
      else if b = bit1 then
        (case current of None \<Rightarrow> Inl AttributeError | Some c \<Rightarrow> Inr (get_right c))
      else Inr current)"

fun decode_loop :: "pystr \<Rightarrow> node option \<Rightarrow> node option \<Rightarrow> node list \<Rightarrow> error + node list" where
  "decode_loop [] huffman_root current decoded = Inr decoded"
| "decode_loop (b # encoded_string) huffman_root current decoded =
     (case step_bit b current of
        Inl e \<Rightarrow> Inl e
      | Inr None \<Rightarrow> Inl AttributeError
      | Inr (Some c) \<Rightarrow>
          if get_symbol c \<noteq> None
          then decode_loop encoded_string huffman_root huffman_root (decoded @ [c])
          else decode_loop encoded_string huffman_root (Some c) decoded)"

definition join_methods :: "node list \<Rightarrow> error + pystr" where
  "join_methods decoded = (if decoded = [] then Inr [] else Inl TypeError)"

definition decode :: "pystr \<Rightarrow> node option \<Rightarrow> error + pystr" where
  "decode encoded_string huffman_root =
     (case decode_loop encoded_string huffman_root huffman_root [] of
        Inl e \<Rightarrow> Inl e
      | Inr decoded \<Rightarrow> join_methods decoded)"

section \<open>Shape and content of a tree\<close>

text \<open>Both files take a node with a symbol for a leaf. \<open>codes\<close> lists the leaves from
  left to right, each with the bits of the path from the root.\<close>

fun codes :: "node \<Rightarrow> (pychar \<times> pystr) list" where
  "codes (Node f (Some symbol) l r) = [(symbol, [])]"
| "codes (Node f None l r) =
     (case l of None \<Rightarrow> [] | Some a \<Rightarrow> map (\<lambda>(s, p). (s, bit0 # p)) (codes a)) @
     (case r of None \<Rightarrow> [] | Some b \<Rightarrow> map (\<lambda>(s, p). (s, bit1 # p)) (codes b))"

definition symbols :: "node \<Rightarrow> pychar list" where
  "symbols t = map fst (codes t)"

fun num_leaves :: "node \<Rightarrow> nat" where
  "num_leaves (Node f (Some symbol) l r) = 1"
| "num_leaves (Node f None l r) =
     (case l of None \<Rightarrow> 0 | Some a \<Rightarrow> num_leaves a) +
     (case r of None \<Rightarrow> 0 | Some b \<Rightarrow> num_leaves b)"

fun num_internal :: "node \<Rightarrow> nat" where
  "num_internal (Node f (Some symbol) l r) = 0"
| "num_internal (Node f None l r) =
     1 + (case l of None \<Rightarrow> 0 | Some a \<Rightarrow> num_internal a) +
     (case r of None \<Rightarrow> 0 | Some b \<Rightarrow> num_internal b)"

fun leaf_sum :: "node \<Rightarrow> int" where
  "leaf_sum (Node f (Some symbol) l r) = f"
| "leaf_sum (Node f None l r) =
     (case l of None \<Rightarrow> 0 | Some a \<Rightarrow> leaf_sum a) +
     (case r of None \<Rightarrow> 0 | Some b \<Rightarrow> leaf_sum b)"

text \<open>A leaf has a symbol and no child; an internal node has no symbol and exactly two
  children.\<close>

fun two_children :: "node \<Rightarrow> bool" where
  "two_children (Node f (Some symbol) l r) = (l = None \<and> r = None)"
| "two_children (Node f None l r) =
     (case (l, r) of (Some a, Some b) \<Rightarrow> two_children a \<and> two_children b | _ \<Rightarrow> False)"

text \<open>Every internal node holds the sum of the frequencies of its two children.\<close>

fun sums_children :: "node \<Rightarrow> bool" where
  "sums_children (Node f (Some symbol) l r) = True"
| "sums_children (Node f None l r) =
     (case (l, r) of
        (Some a, Some b) \<Rightarrow>
          f = get_frequency a + get_frequency b \<and> sums_children a \<and> sums_children b
      | _ \<Rightarrow> False)"

text \<open>A leaf as both forest builders create it.\<close>

definition leaf :: "int \<Rightarrow> pychar \<Rightarrow> node" where
  "leaf freq symbol = Node freq (Some symbol) None None"

definition greedy_symbol :: "nat \<Rightarrow> pychar" where
  "greedy_symbol i = (if i = 26 then space else i + ord_A)"

definition leaves_only :: "node list \<Rightarrow> bool" where
  "leaves_only forest = (\<forall>n\<in>set forest. \<exists>f c. n = leaf f c)"

text \<open>The 27 symbols of \<open>Greedy_Alg.py\<close> and the table position of each.\<close>

definition alphabet :: "pychar \<Rightarrow> bool" where
  "alphabet s = (s = space \<or> (65 \<le> s \<and> s \<le> 90))"

definition pos :: "pychar \<Rightarrow> nat" where
  "pos s = (if s = space then 26 else s - ord_A)"

definition codes_opt :: "node option \<Rightarrow> (pychar \<times> pystr) list" where
  "codes_opt n = (case n of None \<Rightarrow> [] | Some t \<Rightarrow> codes t)"

text \<open>The script body of \<open>Huffman.py\<close> (steps B to F and the final assertion), as a function
  of the filtered message.\<close>

definition huffman_steps ::
  "pystr \<Rightarrow> error + (node option \<times> (pychar, pystr) dict \<times> pystr \<times> pystr)" where
  "huffman_steps filtered_message =
     (case frequency_of_symbols filtered_message of
        Inl e \<Rightarrow> Inl e
      | Inr frequencies \<Rightarrow>
          (case create_forest frequencies of
             Inl e \<Rightarrow> Inl e
           | Inr forest \<Rightarrow>
               (case huffman forest of
                  Inl e \<Rightarrow> Inl e
                | Inr tree_root \<Rightarrow>
                    (let encoding_table = build_encoding_table tree_root in
                     case encode_with_table filtered_message encoding_table of
                       Inl e \<Rightarrow> Inl e
                     | Inr encoded_message \<Rightarrow>
                         (let reverse_table = build_reverse_table encoding_table;
                              decoded_message = decode_with_table encoded_message reverse_table
                          in Inr (tree_root, encoding_table, encoded_message, decoded_message))))))"

definition huffman_main :: "pystr \<Rightarrow> error + unit" where
  "huffman_main filtered_message =
     (case huffman_steps filtered_message of
        Inl e \<Rightarrow> Inl e
      | Inr (tree_root, encoding_table, encoded_message, decoded_message) \<Rightarrow>
          if decoded_message = filtered_message then Inr () else Inl AssertionError)"

text \<open>The script body of \<open>Greedy_Alg.py\<close> (steps 1 to 5 and the final assertion), as a
  function of the filtered message.\<close>

definition greedy_main :: "pystr \<Rightarrow> error + unit" where
  "greedy_main filtered =
     (case count_frequencies filtered of
        Inl e \<Rightarrow> Inl e
      | Inr frequencies \<Rightarrow>
          (case build_huffman_tree frequencies of
             Inl e \<Rightarrow> Inl e
           | Inr root \<Rightarrow>
               (case greedy_build_encoding_table root of
                  Inl e \<Rightarrow> Inl e
                | Inr table \<Rightarrow>
                    (case encode filtered table of
                       Inl e \<Rightarrow> Inl e
                     | Inr encoded \<Rightarrow>
                         (case decode encoded root of
                            Inl e \<Rightarrow> Inl e
                          | Inr decoded \<Rightarrow>
                              if decoded = filtered then Inr () else Inl AssertionError)))))"

section \<open>Minimum extraction and the merge loop\<close>

lemma pop_mset: "pop xs i = Inr (x, ys) \<Longrightarrow> mset xs = add_mset x (mset ys)"
proof -
  assume a: "pop xs i = Inr (x, ys)"
  then have i: "i < length xs" and x: "x = xs ! i" and ys: "ys = take i xs @ drop (Suc i) xs"
    by (auto simp: pop_def split: if_splits)
  have "mset xs = mset (take i xs @ xs ! i # drop (Suc i) xs)"
    using id_take_nth_drop [OF i] by simp
  then show ?thesis using x ys by simp
qed

lemma scan_min:
  "0 < n \<Longrightarrow> n \<le> length forest \<Longrightarrow>
   (let k = fold (\<lambda>i smallest. if lt (forest ! i) (forest ! smallest) then i else smallest)
              [1..<n] 0
    in k < n \<and> (\<forall>j<n. get_frequency (forest ! k) \<le> get_frequency (forest ! j))
       \<and> (\<forall>j<k. get_frequency (forest ! k) < get_frequency (forest ! j)))"
proof (induction n)
  case 0
  then show ?case by simp
next
  case (Suc m)
  show ?case
  proof (cases "m = 0")
    case True
    then show ?thesis by simp
  next
    case False
    then have IH: "let k = fold (\<lambda>i smallest. if lt (forest ! i) (forest ! smallest) then i else smallest)
              [1..<m] 0
    in k < m \<and> (\<forall>j<m. get_frequency (forest ! k) \<le> get_frequency (forest ! j))
       \<and> (\<forall>j<k. get_frequency (forest ! k) < get_frequency (forest ! j))"
      using Suc by simp
    from False have upt: "[1..<Suc m] = [1..<m] @ [m]" by simp
    show ?thesis
      using IH unfolding upt fold_append
      by (auto simp: Let_def lt_def less_Suc_eq dest: spec)
  qed
qed

lemma smallest_index_min:
  assumes "forest \<noteq> []"
  shows "smallest_index forest < length forest"
    and "j < length forest \<Longrightarrow>
           get_frequency (forest ! smallest_index forest) \<le> get_frequency (forest ! j)"
    and "j < smallest_index forest \<Longrightarrow>
           get_frequency (forest ! smallest_index forest) < get_frequency (forest ! j)"
  using scan_min [of "length forest" forest] assms
  by (simp_all add: smallest_index_def Let_def)

lemma get_smallest_Inr:
  assumes "forest \<noteq> []"
  shows "\<exists>s rest. get_smallest forest = Inr (s, rest) \<and> mset forest = add_mset s (mset rest)
           \<and> Suc (length rest) = length forest"
proof -
  have k: "smallest_index forest < length forest"
    using smallest_index_min(1) [OF assms] .
  then obtain s rest where p: "pop forest (smallest_index forest) = Inr (s, rest)"
    by (simp add: pop_def)
  from p have "Suc (length rest) = length forest"
    by (auto simp: pop_def split: if_splits)
  with p pop_mset [OF p] show ?thesis
    by (simp add: get_smallest_def)
qed

lemma merge_step_Inr:
  assumes "2 \<le> length forest"
  shows "\<exists>s1 s2 rest. merge_step forest = Inr (rest @ [new_node s1 s2])
           \<and> mset forest = add_mset s1 (add_mset s2 (mset rest))
           \<and> Suc (Suc (length rest)) = length forest"
proof -
  from assms have "forest \<noteq> []" by auto
  from get_smallest_Inr [OF this] obtain s1 f1 where
    1: "get_smallest forest = Inr (s1, f1)" "mset forest = add_mset s1 (mset f1)"
       "Suc (length f1) = length forest"
    by blast
  with assms have "f1 \<noteq> []" by auto
  from get_smallest_Inr [OF this] obtain s2 f2 where
    2: "get_smallest f1 = Inr (s2, f2)" "mset f1 = add_mset s2 (mset f2)"
       "Suc (length f2) = length f1"
    by blast
  from 1 2 show ?thesis
    by (auto simp: merge_step_def)
qed

lemma merge_loop_rule:
  assumes step: "\<And>a b M. I (add_mset a (add_mset b M)) \<Longrightarrow> I (add_mset (new_node a b) M)"
  shows "forest \<noteq> [] \<Longrightarrow> I (mset forest) \<Longrightarrow> \<exists>root. merge_loop forest = Inr root \<and> I {#root#}"
proof (induction forest rule: merge_loop.induct)
  case (1 forest)
  show ?case
  proof (cases "length forest > 1")
    case True
    then have "2 \<le> length forest" by simp
    from merge_step_Inr [OF this] obtain s1 s2 rest where
      m: "merge_step forest = Inr (rest @ [new_node s1 s2])"
         "mset forest = add_mset s1 (add_mset s2 (mset rest))"
      by blast
    have "I (mset (rest @ [new_node s1 s2]))"
      using step [of s1 s2 "mset rest"] "1.prems"(2) m(2) by simp
    with "1.IH" [OF True m(1)] obtain root where
      "merge_loop (rest @ [new_node s1 s2]) = Inr root" "I {#root#}"
      by auto
    then show ?thesis
      using True m(1) by (subst merge_loop.simps) simp
  next
    case False
    with "1.prems"(1) obtain root where "forest = [root]"
      by (cases forest) auto
    with "1.prems"(2) show ?thesis
      by (subst merge_loop.simps) simp
  qed
qed

section \<open>Trees built from a forest of leaves\<close>

lemma new_node_simps [simp]:
  "codes (new_node a b) = map (\<lambda>(s, p). (s, bit0 # p)) (codes a) @ map (\<lambda>(s, p). (s, bit1 # p)) (codes b)"
  "num_leaves (new_node a b) = num_leaves a + num_leaves b"
  "num_internal (new_node a b) = 1 + num_internal a + num_internal b"
  "leaf_sum (new_node a b) = leaf_sum a + leaf_sum b"
  "get_frequency (new_node a b) = get_frequency a + get_frequency b"
  "two_children (new_node a b) = (two_children a \<and> two_children b)"
  "sums_children (new_node a b) = (sums_children a \<and> sums_children b)"
  by (simp_all add: new_node_def)

lemma symbols_new_node [simp]: "symbols (new_node a b) = symbols a @ symbols b"
  by (simp add: symbols_def case_prod_unfold comp_def)

lemma two_children_counts: "two_children t \<Longrightarrow> num_leaves t = Suc (num_internal t)"
  by (induction t rule: two_children.induct) (auto split: option.splits)

lemma sums_children_frequency: "sums_children t \<Longrightarrow> get_frequency t = leaf_sum t"
  by (induction t rule: sums_children.induct) (auto split: option.splits)

lemma leaf_simps [simp]:
  "codes (leaf f c) = [(c, [])]" "symbols (leaf f c) = [c]"
  "num_leaves (leaf f c) = 1" "num_internal (leaf f c) = 0" "leaf_sum (leaf f c) = f"
  "get_frequency (leaf f c) = f" "two_children (leaf f c)" "sums_children (leaf f c)"
  by (simp_all add: leaf_def symbols_def)

lemma create_forest_loop_Inr:
  "create_forest_loop fs is acc = Inr forest \<Longrightarrow>
   forest = acc @ map (\<lambda>i. leaf (fs ! i) i) (filter (\<lambda>i. 0 < fs ! i) is)"
  by (induction fs "is" acc rule: create_forest_loop.induct)
     (auto simp: chr_def leaf_def split: if_splits)

lemma create_forest_loop_total:
  "\<forall>i\<in>set is. i < 1114112 \<Longrightarrow> \<exists>forest. create_forest_loop fs is acc = Inr forest"
  by (induction "is" arbitrary: acc) (auto simp: chr_def)

lemma create_forest_Inr:
  "create_forest fs = Inr forest \<Longrightarrow>
   forest = map (\<lambda>i. leaf (fs ! i) i) (filter (\<lambda>i. 0 < fs ! i) [0..<length fs])"
  using create_forest_loop_Inr [of fs "[0..<length fs]" "[]" forest]
  by (simp add: create_forest_def)

lemma positive_entries:
  "map (\<lambda>i. fs ! i) (filter (\<lambda>i. 0 < fs ! i) [0..<length fs]) = filter (\<lambda>f. 0 < (f::int)) fs"
proof -
  have "filter (\<lambda>f. 0 < f) (map (\<lambda>i. fs ! i) [0..<length fs])
          = map (\<lambda>i. fs ! i) (filter (\<lambda>i. 0 < fs ! i) [0..<length fs])"
    by (simp add: filter_map comp_def)
  then show ?thesis by (simp add: map_nth)
qed

lemma initialize_forest_loop_Inr:
  "initialize_forest_loop ps acc = Inr forest \<Longrightarrow>
   forest = acc @ map (\<lambda>(i, f). leaf f (greedy_symbol i)) (filter (\<lambda>(i, f). 0 < f) ps)"
  by (induction ps acc rule: initialize_forest_loop.induct)
     (auto simp: chr_def leaf_def greedy_symbol_def split: if_splits)

lemma initialize_forest_Inr:
  "initialize_forest fs = Inr forest \<Longrightarrow>
   forest = map (\<lambda>(i, f). leaf f (greedy_symbol i)) (filter (\<lambda>(i, f). 0 < f) (enumerate 0 fs))"
  using initialize_forest_loop_Inr [of "enumerate 0 fs" "[]" forest]
  by (simp add: initialize_forest_def)

lemma initialize_forest_loop_total:
  "\<forall>(i, f)\<in>set ps. i + 65 < 1114112 \<Longrightarrow> \<exists>forest. initialize_forest_loop ps acc = Inr forest"
  by (induction ps acc rule: initialize_forest_loop.induct) (auto simp: chr_def)

lemma create_forest_total:
  "length fs \<le> 1114112 \<Longrightarrow> \<exists>forest. create_forest fs = Inr forest"
  unfolding create_forest_def by (rule create_forest_loop_total) auto

lemma initialize_forest_total:
  "length fs \<le> 1114047 \<Longrightarrow> \<exists>forest. initialize_forest fs = Inr forest"
  unfolding initialize_forest_def
  by (rule initialize_forest_loop_total) (auto simp: in_set_enumerate_eq)

lemma positive_pairs:
  "map snd (filter (\<lambda>(i, f). 0 < f) (enumerate k fs)) = filter (\<lambda>f. 0 < (f::int)) fs"
  by (induction fs arbitrary: k) auto

lemma leaves_only_sums:
  assumes "leaves_only forest"
  shows "\<forall>n\<in>set forest. two_children n \<and> sums_children n"
    and "sum_list (map num_leaves forest) = length forest"
    and "sum_list (map leaf_sum forest) = sum_list (map get_frequency forest)"
    and "concat (map symbols forest) = map (\<lambda>n. the (get_symbol n)) forest"
  using assms by (induction forest; fastforce simp: leaves_only_def leaf_def symbols_def)+

lemma sum_mset_image_list: "sum_mset (image_mset f (mset xs)) = sum_list (map f xs)"
  by (induction xs) auto

lemma merge_loop_tree:
  assumes ne: "forest \<noteq> []"
    and wf: "\<forall>n\<in>set forest. two_children n \<and> sums_children n"
  shows "\<exists>root. merge_loop forest = Inr root \<and> two_children root \<and> sums_children root
           \<and> num_leaves root = sum_list (map num_leaves forest)
           \<and> leaf_sum root = sum_list (map leaf_sum forest)
           \<and> mset (symbols root) = mset (concat (map symbols forest))"
proof -
  define I where "I M \<longleftrightarrow> (\<forall>n\<in>#M. two_children n \<and> sums_children n)
      \<and> sum_mset (image_mset num_leaves M) = sum_list (map num_leaves forest)
      \<and> sum_mset (image_mset leaf_sum M) = sum_list (map leaf_sum forest)
      \<and> sum_mset (image_mset (\<lambda>n. mset (symbols n)) M) = mset (concat (map symbols forest))"
    for M
  have step: "I (add_mset (new_node a b) M)" if "I (add_mset a (add_mset b M))" for a b M
    using that by (simp add: I_def add.assoc)
  have "I (mset forest)"
    using wf by (simp add: I_def mset_concat sum_mset_image_list comp_def)
  from merge_loop_rule [of I, OF step ne this] show ?thesis
    by (auto simp: I_def)
qed

lemma create_forest_facts:
  assumes "create_forest fs = Inr forest"
  shows "leaves_only forest"
    and "map get_frequency forest = filter (\<lambda>f. 0 < f) fs"
    and "map (\<lambda>n. the (get_symbol n)) forest = filter (\<lambda>i. 0 < fs ! i) [0..<length fs]"
proof -
  note eq = create_forest_Inr [OF assms]
  show "leaves_only forest"
    unfolding eq leaves_only_def by auto
  have "map get_frequency forest = map (\<lambda>i. fs ! i) (filter (\<lambda>i. 0 < fs ! i) [0..<length fs])"
    unfolding eq by (simp add: comp_def)
  then show "map get_frequency forest = filter (\<lambda>f. 0 < f) fs"
    by (simp add: positive_entries)
  show "map (\<lambda>n. the (get_symbol n)) forest = filter (\<lambda>i. 0 < fs ! i) [0..<length fs]"
    unfolding eq by (simp add: comp_def leaf_def)
qed

lemma initialize_forest_facts:
  assumes "initialize_forest fs = Inr forest"
  shows "leaves_only forest"
    and "map get_frequency forest = filter (\<lambda>f. 0 < f) fs"
    and "map (\<lambda>n. the (get_symbol n)) forest
           = map (\<lambda>(i, f). greedy_symbol i) (filter (\<lambda>(i, f). 0 < f) (enumerate 0 fs))"
proof -
  note eq = initialize_forest_Inr [OF assms]
  show "leaves_only forest"
    unfolding eq leaves_only_def by auto
  have "map get_frequency forest = map snd (filter (\<lambda>(i, f). 0 < f) (enumerate 0 fs))"
    unfolding eq by (simp add: comp_def case_prod_unfold)
  then show "map get_frequency forest = filter (\<lambda>f. 0 < f) fs"
    by (simp add: positive_pairs)
  show "map (\<lambda>n. the (get_symbol n)) forest
           = map (\<lambda>(i, f). greedy_symbol i) (filter (\<lambda>(i, f). 0 < f) (enumerate 0 fs))"
    unfolding eq by (simp add: comp_def leaf_def case_prod_unfold)
qed

text \<open>What the loop returns on a forest of leaves.\<close>

lemma merge_loop_leaves:
  assumes "forest \<noteq> []" and "leaves_only forest"
  shows "\<exists>root. merge_loop forest = Inr root \<and> two_children root \<and> sums_children root
           \<and> num_leaves root = length forest
           \<and> leaf_sum root = sum_list (map get_frequency forest)
           \<and> mset (symbols root) = mset (map (\<lambda>n. the (get_symbol n)) forest)"
  using merge_loop_tree [OF assms(1) leaves_only_sums(1) [OF assms(2)]]
    leaves_only_sums(2-4) [OF assms(2)]
  by simp

lemma merge_step_short: "length forest < 2 \<Longrightarrow> merge_step forest = Inl IndexError"
proof -
  assume "length forest < 2"
  then consider "forest = []" | x where "forest = [x]"
    by (cases forest; cases "tl forest") auto
  then show ?thesis
    by cases (simp_all add: merge_step_def get_smallest_def smallest_index_def pop_def)
qed

lemma merge_step_shape:
  assumes "merge_step forest = Inr forest'"
  shows "\<exists>s1 s2 rest. forest' = rest @ [new_node s1 s2]
           \<and> mset forest = add_mset s1 (add_mset s2 (mset rest))"
proof -
  have "2 \<le> length forest"
    using assms merge_step_short [of forest] by (cases "length forest < 2") auto
  from merge_step_Inr [OF this] assms show ?thesis by auto
qed

lemma huffman_of_leaves:
  assumes "forest \<noteq> []" and "leaves_only forest"
  shows "\<exists>t. huffman forest = Inr (Some t) \<and> merge_loop forest = Inr t"
  using merge_loop_leaves [OF assms] assms(1) by (auto simp: huffman_def)

lemma build_huffman_tree_eq:
  "initialize_forest fs = Inr forest \<Longrightarrow> build_huffman_tree fs = huffman forest"
  by (simp add: build_huffman_tree_def huffman_def)

section \<open>Invariants of the construction\<close>

text \<open>
  Claim C8. Whenever the frequency list has a positive entry, \<open>huffman\<close> (on the forest of
  \<open>create_forest\<close>) and \<open>build_huffman_tree\<close> return a tree; the frequency stored at its
  root is the sum of the frequencies of its leaves, which is the sum of the positive
  entries of the list, and every internal node stores the sum of the frequencies of its
  two children. Each merge step keeps that property of the nodes of the forest and keeps
  the sum of the root frequencies of the forest.
\<close>

theorem frequency_conservation:
  "(length frequencies \<le> 1114112 \<and> (\<exists>f\<in>set frequencies. 0 < f) \<longrightarrow>
      (\<exists>forest t. create_forest frequencies = Inr forest \<and> huffman forest = Inr (Some t)
         \<and> get_frequency t = leaf_sum t
         \<and> leaf_sum t = sum_list (filter (\<lambda>f. 0 < f) frequencies)
         \<and> sums_children t))
   \<and> (length frequencies \<le> 1114047 \<and> (\<exists>f\<in>set frequencies. 0 < f) \<longrightarrow>
      (\<exists>t. build_huffman_tree frequencies = Inr (Some t)
         \<and> get_frequency t = leaf_sum t
         \<and> leaf_sum t = sum_list (filter (\<lambda>f. 0 < f) frequencies)
         \<and> sums_children t))
   \<and> ((\<forall>n\<in>set forest. sums_children n) \<and> merge_step forest = Inr forest' \<longrightarrow>
      (\<forall>n\<in>set forest'. sums_children n)
         \<and> sum_list (map get_frequency forest') = sum_list (map get_frequency forest))"
proof (intro conjI impI)
  assume a: "length frequencies \<le> 1114112 \<and> (\<exists>f\<in>set frequencies. 0 < f)"
  then obtain forest where c: "create_forest frequencies = Inr forest"
    using create_forest_total by blast
  note facts = create_forest_facts [OF c]
  from a have "filter (\<lambda>f. 0 < f) frequencies \<noteq> []"
    by (auto simp: filter_empty_conv)
  with facts(2) have ne: "forest \<noteq> []" by auto
  from merge_loop_leaves [OF ne facts(1)] obtain t where
    t: "merge_loop forest = Inr t" "sums_children t"
       "leaf_sum t = sum_list (map get_frequency forest)"
    by blast
  from t(1) ne have "huffman forest = Inr (Some t)" by (simp add: huffman_def)
  with c t facts(2) sums_children_frequency [OF t(2)]
  show "\<exists>forest t. create_forest frequencies = Inr forest \<and> huffman forest = Inr (Some t)
         \<and> get_frequency t = leaf_sum t
         \<and> leaf_sum t = sum_list (filter (\<lambda>f. 0 < f) frequencies)
         \<and> sums_children t"
    by auto
next
  assume a: "length frequencies \<le> 1114047 \<and> (\<exists>f\<in>set frequencies. 0 < f)"
  then obtain forest where c: "initialize_forest frequencies = Inr forest"
    using initialize_forest_total by blast
  note facts = initialize_forest_facts [OF c]
  from a have "filter (\<lambda>f. 0 < f) frequencies \<noteq> []"
    by (auto simp: filter_empty_conv)
  with facts(2) have ne: "forest \<noteq> []" by auto
  from merge_loop_leaves [OF ne facts(1)] obtain t where
    t: "merge_loop forest = Inr t" "sums_children t"
       "leaf_sum t = sum_list (map get_frequency forest)"
    by blast
  from t(1) ne c have "build_huffman_tree frequencies = Inr (Some t)"
    by (simp add: build_huffman_tree_def)
  with t facts(2) sums_children_frequency [OF t(2)]
  show "\<exists>t. build_huffman_tree frequencies = Inr (Some t)
         \<and> get_frequency t = leaf_sum t
         \<and> leaf_sum t = sum_list (filter (\<lambda>f. 0 < f) frequencies)
         \<and> sums_children t"
    by auto
next
  assume a: "(\<forall>n\<in>set forest. sums_children n) \<and> merge_step forest = Inr forest'"
  then obtain s1 s2 rest where
    s: "forest' = rest @ [new_node s1 s2]" "mset forest = add_mset s1 (add_mset s2 (mset rest))"
    using merge_step_shape by blast
  from s(2) have set: "set forest = insert s1 (insert s2 (set rest))"
    by (metis set_mset_add_mset_insert set_mset_mset)
  with a s(1) show "\<forall>n\<in>set forest'. sums_children n" by auto
  have "sum_list (map get_frequency forest) = sum_mset (image_mset get_frequency (mset forest))"
    by (simp add: sum_mset_image_list)
  also have "\<dots> = get_frequency s1 + get_frequency s2 + sum_list (map get_frequency rest)"
    unfolding s(2) by (simp add: sum_mset_image_list)
  finally show "sum_list (map get_frequency forest') = sum_list (map get_frequency forest)"
    using s(1) by simp
qed

theorem frequency_conservation_witness:
  "(\<exists>forest t. create_forest [2, 0, 1, 1] = Inr forest \<and> huffman forest = Inr (Some t)
      \<and> get_frequency t = leaf_sum t \<and> leaf_sum t = 4 \<and> sums_children t)
   \<and> (\<exists>t. build_huffman_tree [2, 0, 1, 1] = Inr (Some t)
      \<and> get_frequency t = leaf_sum t \<and> leaf_sum t = 4 \<and> sums_children t)
   \<and> sum_list (map get_frequency [new_node (leaf 1 66) (leaf 2 65)]) = 3"
proof -
  have m: "merge_step [leaf 2 65, leaf 1 66] = Inr [new_node (leaf 1 66) (leaf 2 65)]"
    by code_simp
  show ?thesis
    using frequency_conservation [of "[2, 0, 1, 1]" "[leaf 2 65, leaf 1 66]"
        "[new_node (leaf 1 66) (leaf 2 65)]"] m
    by simp
qed

lemma enumerate_as_map: "enumerate 0 fs = map (\<lambda>i. (i, fs ! i)) [0..<length fs]"
  by (rule nth_equalityI) (simp_all add: nth_enumerate_eq)

lemma initialize_forest_symbols:
  assumes "initialize_forest fs = Inr forest"
  shows "map (\<lambda>n. the (get_symbol n)) forest
           = map greedy_symbol (filter (\<lambda>i. 0 < fs ! i) [0..<length fs])"
  unfolding initialize_forest_facts(3) [OF assms] enumerate_as_map
  by (simp add: filter_map comp_def)

text \<open>
  Claim C9. With \<open>N\<close> the number of positive entries of the frequency list: for \<open>N = 0\<close>
  both builders return \<open>None\<close>; for \<open>N \<ge> 1\<close> they return a tree with \<open>N\<close> leaves and
  \<open>N - 1\<close> internal nodes in which every internal node has exactly two children (and
  every leaf none).
\<close>

theorem leaf_and_internal_counts:
  assumes "N = length (filter (\<lambda>f. 0 < f) frequencies)"
  shows "(length frequencies \<le> 1114112 \<longrightarrow>
      (\<exists>forest. create_forest frequencies = Inr forest \<and>
         (if N = 0 then huffman forest = Inr None
          else \<exists>t. huffman forest = Inr (Some t) \<and> num_leaves t = N
                 \<and> num_internal t = N - 1 \<and> two_children t)))
   \<and> (length frequencies \<le> 1114047 \<longrightarrow>
      (if N = 0 then build_huffman_tree frequencies = Inr None
       else \<exists>t. build_huffman_tree frequencies = Inr (Some t) \<and> num_leaves t = N
              \<and> num_internal t = N - 1 \<and> two_children t))"
proof -
  have tree: "if N = 0 then huffman forest = Inr None
      else \<exists>t. huffman forest = Inr (Some t) \<and> num_leaves t = N
             \<and> num_internal t = N - 1 \<and> two_children t"
    if l: "leaves_only forest" and f: "map get_frequency forest = filter (\<lambda>f. 0 < f) frequencies"
    for forest
  proof (cases "N = 0")
    case True
    with f assms have "forest = []" by simp
    with True show ?thesis by (simp add: huffman_def)
  next
    case False
    from f assms have len: "length forest = N"
      by (metis length_map)
    with False have ne: "forest \<noteq> []" by auto
    from merge_loop_leaves [OF ne l] obtain t where
      t: "merge_loop forest = Inr t" "two_children t" "num_leaves t = length forest"
      by blast
    from two_children_counts [OF t(2)] t(3) len have "num_internal t = N - 1" by simp
    with t ne len False show ?thesis by (simp add: huffman_def)
  qed
  show ?thesis
  proof (intro conjI impI)
    assume "length frequencies \<le> 1114112"
    then obtain forest where c: "create_forest frequencies = Inr forest"
      using create_forest_total by blast
    from tree [OF create_forest_facts(1,2) [OF c]] c
    show "\<exists>forest. create_forest frequencies = Inr forest \<and>
         (if N = 0 then huffman forest = Inr None
          else \<exists>t. huffman forest = Inr (Some t) \<and> num_leaves t = N
                 \<and> num_internal t = N - 1 \<and> two_children t)"
      by blast
  next
    assume "length frequencies \<le> 1114047"
    then obtain forest where c: "initialize_forest frequencies = Inr forest"
      using initialize_forest_total by blast
    show "if N = 0 then build_huffman_tree frequencies = Inr None
       else \<exists>t. build_huffman_tree frequencies = Inr (Some t) \<and> num_leaves t = N
              \<and> num_internal t = N - 1 \<and> two_children t"
      unfolding build_huffman_tree_eq [OF c]
      by (rule tree [OF initialize_forest_facts(1,2) [OF c]])
  qed
qed

theorem leaf_and_internal_counts_witness:
  "(\<exists>forest. create_forest [2, 0, 1, 1] = Inr forest \<and>
      (\<exists>t. huffman forest = Inr (Some t) \<and> num_leaves t = 3 \<and> num_internal t = 2
          \<and> two_children t))
   \<and> (\<exists>t. build_huffman_tree [2, 0, 1, 1] = Inr (Some t) \<and> num_leaves t = 3
          \<and> num_internal t = 2 \<and> two_children t)"
  using leaf_and_internal_counts [of 3 "[2, 0, 1, 1]"] by simp

text \<open>
  Claim C10. On a non-empty forest \<open>get_smallest\<close> returns the node at the lowest index
  among those of minimal frequency, together with the forest without that one element.
  A merge step on at least two nodes extracts twice in this way and appends the merged
  node at the end, and the initial forests list their leaves in the order of the
  frequency list (ascending code points in \<open>Huffman.py\<close>; the letters, then the space, in
  \<open>Greedy_Alg.py\<close>).
\<close>

theorem get_smallest_first_minimum:
  "(forest \<noteq> [] \<longrightarrow>
      (\<exists>k<length forest.
         get_smallest forest = Inr (forest ! k, take k forest @ drop (Suc k) forest)
         \<and> (\<forall>j<length forest. get_frequency (forest ! k) \<le> get_frequency (forest ! j))
         \<and> (\<forall>j<k. get_frequency (forest ! k) < get_frequency (forest ! j))
         \<and> Suc (length (take k forest @ drop (Suc k) forest)) = length forest))
   \<and> (2 \<le> length forest \<longrightarrow>
      (\<exists>s1 forest1 s2 forest2. get_smallest forest = Inr (s1, forest1)
         \<and> get_smallest forest1 = Inr (s2, forest2)
         \<and> merge_step forest = Inr (forest2 @ [new_node s1 s2])))
   \<and> (create_forest frequencies = Inr leaves \<longrightarrow>
        map (\<lambda>n. the (get_symbol n)) leaves
          = filter (\<lambda>i. 0 < frequencies ! i) [0..<length frequencies])
   \<and> (initialize_forest frequencies = Inr leaves' \<longrightarrow>
        map (\<lambda>n. the (get_symbol n)) leaves'
          = map greedy_symbol (filter (\<lambda>i. 0 < frequencies ! i) [0..<length frequencies]))"
proof (intro conjI impI)
  assume ne: "forest \<noteq> []"
  let ?k = "smallest_index forest"
  note k = smallest_index_min [OF ne]
  have "get_smallest forest = Inr (forest ! ?k, take ?k forest @ drop (Suc ?k) forest)"
    using k(1) by (simp add: get_smallest_def pop_def)
  moreover have "Suc (length (take ?k forest @ drop (Suc ?k) forest)) = length forest"
    using k(1) by simp
  ultimately show "\<exists>k<length forest.
         get_smallest forest = Inr (forest ! k, take k forest @ drop (Suc k) forest)
         \<and> (\<forall>j<length forest. get_frequency (forest ! k) \<le> get_frequency (forest ! j))
         \<and> (\<forall>j<k. get_frequency (forest ! k) < get_frequency (forest ! j))
         \<and> Suc (length (take k forest @ drop (Suc k) forest)) = length forest"
    using k by blast
next
  assume two: "2 \<le> length forest"
  then have "forest \<noteq> []" by auto
  from get_smallest_Inr [OF this] obtain s1 f1 where
    1: "get_smallest forest = Inr (s1, f1)" "Suc (length f1) = length forest"
    by blast
  with two have "f1 \<noteq> []" by auto
  from get_smallest_Inr [OF this] obtain s2 f2 where 2: "get_smallest f1 = Inr (s2, f2)"
    by blast
  from 1(1) 2 show "\<exists>s1 forest1 s2 forest2. get_smallest forest = Inr (s1, forest1)
         \<and> get_smallest forest1 = Inr (s2, forest2)
         \<and> merge_step forest = Inr (forest2 @ [new_node s1 s2])"
    by (simp add: merge_step_def)
next
  assume "create_forest frequencies = Inr leaves"
  then show "map (\<lambda>n. the (get_symbol n)) leaves
          = filter (\<lambda>i. 0 < frequencies ! i) [0..<length frequencies]"
    by (rule create_forest_facts(3))
next
  assume "initialize_forest frequencies = Inr leaves'"
  then show "map (\<lambda>n. the (get_symbol n)) leaves'
          = map greedy_symbol (filter (\<lambda>i. 0 < frequencies ! i) [0..<length frequencies])"
    by (rule initialize_forest_symbols)
qed

theorem get_smallest_first_minimum_witness:
  "(\<exists>k<length [leaf 2 65, leaf 1 66, leaf 1 67].
         get_smallest [leaf 2 65, leaf 1 66, leaf 1 67] = Inr ([leaf 2 65, leaf 1 66, leaf 1 67] ! k, take k [leaf 2 65, leaf 1 66, leaf 1 67] @ drop (Suc k) [leaf 2 65, leaf 1 66, leaf 1 67])
         \<and> (\<forall>j<length [leaf 2 65, leaf 1 66, leaf 1 67]. get_frequency ([leaf 2 65, leaf 1 66, leaf 1 67] ! k) \<le> get_frequency ([leaf 2 65, leaf 1 66, leaf 1 67] ! j))
         \<and> (\<forall>j<k. get_frequency ([leaf 2 65, leaf 1 66, leaf 1 67] ! k) < get_frequency ([leaf 2 65, leaf 1 66, leaf 1 67] ! j))
         \<and> Suc (length (take k [leaf 2 65, leaf 1 66, leaf 1 67] @ drop (Suc k) [leaf 2 65, leaf 1 66, leaf 1 67])) = length [leaf 2 65, leaf 1 66, leaf 1 67])
   \<and> get_smallest [leaf 2 65, leaf 1 66, leaf 1 67] = Inr (leaf 1 66, [leaf 2 65, leaf 1 67])
   \<and> (\<exists>s1 forest1 s2 forest2. get_smallest [leaf 2 65, leaf 1 66, leaf 1 67] = Inr (s1, forest1)
         \<and> get_smallest forest1 = Inr (s2, forest2)
         \<and> merge_step [leaf 2 65, leaf 1 66, leaf 1 67] = Inr (forest2 @ [new_node s1 s2]))
   \<and> create_forest [2, 0, 1] = Inr [leaf 2 0, leaf 1 2]
   \<and> map (\<lambda>n. the (get_symbol n)) [leaf 2 0, leaf 1 2]
        = filter (\<lambda>i. 0 < [2, 0, 1 :: int] ! i) [0..<length [2, 0, 1 :: int]]
   \<and> initialize_forest [2, 0, 1] = Inr [leaf 2 65, leaf 1 67]
   \<and> map (\<lambda>n. the (get_symbol n)) [leaf 2 65, leaf 1 67]
        = map greedy_symbol (filter (\<lambda>i. 0 < [2, 0, 1 :: int] ! i) [0..<length [2, 0, 1 :: int]])"
proof -
  have ne: "[leaf 2 65, leaf 1 66, leaf 1 67] \<noteq> []" and two: "2 \<le> length [leaf 2 65, leaf 1 66, leaf 1 67]"
    by simp_all
  have c: "create_forest [2, 0, 1] = Inr [leaf 2 0, leaf 1 2]"
    by (simp add: create_forest_def chr_def leaf_def upt_rec)
  have i: "initialize_forest [2, 0, 1] = Inr [leaf 2 65, leaf 1 67]"
    by (simp add: initialize_forest_def chr_def leaf_def)
  have g: "get_smallest [leaf 2 65, leaf 1 66, leaf 1 67] = Inr (leaf 1 66, [leaf 2 65, leaf 1 67])"
    by (simp add: get_smallest_def smallest_index_def pop_def lt_def leaf_def upt_rec)
  from get_smallest_first_minimum [of "[leaf 2 65, leaf 1 66, leaf 1 67]" "[2, 0, 1]"
      "[leaf 2 0, leaf 1 2]" "[leaf 2 65, leaf 1 67]"] ne two c i g
  show ?thesis by blast
qed

section \<open>Code tables\<close>

lemma traverse_keys: "distinct (map fst table) \<Longrightarrow> distinct (map fst (traverse n code table))"
  by (induction n code table rule: traverse.induct) (auto simp: distinct_update split: option.splits)

lemma map_of_relabel:
  "map_of (map (\<lambda>(s, p). (s, f p)) xs) k = map_option f (map_of xs k)"
  by (induction xs) auto

lemma traverse_lookup:
  "distinct (map fst (codes t)) \<Longrightarrow>
   map_of (traverse (Some t) code table) s =
     (case map_of (codes t) s of Some p \<Rightarrow> Some (code @ p) | None \<Rightarrow> map_of table s)"
proof (induction t arbitrary: code table)
  case (Node f sy l r)
  show ?case
  proof (cases sy)
    case (Some symbol)
    then show ?thesis by (simp add: update_conv')
  next
    case None
    define tl where "tl = traverse l (code @ [bit0]) table"
    have dl: "distinct (map fst (codes a))" if "l = Some a" for a
      using Node.prems None that by (simp add: map_of_relabel comp_def case_prod_unfold distinct_map)
    have dr: "distinct (map fst (codes b))" if "r = Some b" for b
      using Node.prems None that by (simp add: comp_def case_prod_unfold)
    have disj: "fst ` set (codes a) \<inter> fst ` set (codes b) = {}" if "l = Some a" "r = Some b" for a b
      using Node.prems None that by (auto simp: comp_def case_prod_unfold image_iff)
    have L: "map_of tl s =
        (case l of None \<Rightarrow> map_of table s
         | Some a \<Rightarrow> (case map_of (codes a) s of Some p \<Rightarrow> Some (code @ bit0 # p)
                      | None \<Rightarrow> map_of table s))"
      using Node.IH(1) dl by (auto simp: tl_def split: option.splits)
    have R: "map_of (traverse r (code @ [bit1]) tl) s =
        (case r of None \<Rightarrow> map_of tl s
         | Some b \<Rightarrow> (case map_of (codes b) s of Some p \<Rightarrow> Some (code @ bit1 # p)
                      | None \<Rightarrow> map_of tl s))"
      using Node.IH(2) dr by (auto split: option.splits)
    have no: "map_of (codes a) s = None" if "l = Some a" "r = Some b" "map_of (codes b) s = Some p" for a b p
      using disj [OF that(1,2)] that(3)
      by (metis disjoint_iff domI dom_map_of_conv_image_fst domIff)
    show ?thesis
      using None L R no
      by (auto simp: tl_def [symmetric] map_of_relabel map_add_def split: option.splits)
  qed
qed

lemma codes_prefix_free:
  "(a, p) \<in> set (codes t) \<Longrightarrow> (b, q) \<in> set (codes t) \<Longrightarrow> prefix p q \<Longrightarrow> a = b \<and> p = q"
proof (induction t arbitrary: a b p q)
  case (Node f sy l r)
  show ?case
  proof (cases sy)
    case (Some symbol)
    with Node.prems show ?thesis by simp
  next
    case None
    from Node.prems(1) None consider
      (left) x p' where "l = Some x" "(a, p') \<in> set (codes x)" "p = bit0 # p'"
    | (right) y p' where "r = Some y" "(a, p') \<in> set (codes y)" "p = bit1 # p'"
      by (auto split: option.splits)
    then show ?thesis
    proof cases
      case left
      with Node.prems(2,3) None obtain q' where "(b, q') \<in> set (codes x)" "q = bit0 # q'"
        by (auto split: option.splits)
      with left Node.prems(3) Node.IH(1) [of x a p' b q'] show ?thesis by simp
    next
      case right
      with Node.prems(2,3) None obtain q' where "(b, q') \<in> set (codes y)" "q = bit1 # q'"
        by (auto split: option.splits)
      with right Node.prems(3) Node.IH(2) [of y a p' b q'] show ?thesis by simp
    qed
  qed
qed

lemma codes_bits: "(a, p) \<in> set (codes t) \<Longrightarrow> set p \<subseteq> {bit0, bit1}"
proof (induction t arbitrary: a p)
  case (Node f sy l r)
  show ?case
  proof (cases sy)
    case (Some symbol)
    with Node.prems show ?thesis by simp
  next
    case None
    from Node.prems None consider
      (left) x p' where "l = Some x" "(a, p') \<in> set (codes x)" "p = bit0 # p'"
    | (right) y p' where "r = Some y" "(a, p') \<in> set (codes y)" "p = bit1 # p'"
      by (auto split: option.splits)
    then show ?thesis
    proof cases
      case left
      with Node.IH(1) [of x a p'] show ?thesis by auto
    next
      case right
      with Node.IH(2) [of y a p'] show ?thesis by auto
    qed
  qed
qed

lemma num_leaves_codes: "num_leaves t = length (codes t)"
proof (induction t)
  case (Node f sy l r)
  then show ?case
    by (cases sy) (auto split: option.splits)
qed

lemma codes_nonempty:
  "2 \<le> num_leaves t \<Longrightarrow> (a, p) \<in> set (codes t) \<Longrightarrow> p \<noteq> []"
  by (cases t; cases "get_symbol t") (auto split: option.splits)

lemma build_encoding_table_lookup:
  assumes "distinct (symbols t)"
  shows "map_of (build_encoding_table (Some t)) s = Some c \<longleftrightarrow> (s, c) \<in> set (codes t)"
proof -
  from assms have d: "distinct (map fst (codes t))" by (simp add: symbols_def)
  show ?thesis
    using traverse_lookup [OF d, of "[]" "[]" s] map_of_eq_Some_iff [OF d, of s c]
    by (auto simp: build_encoding_table_def split: option.splits)
qed

lemma build_encoding_table_keys: "distinct (map fst (build_encoding_table root))"
  unfolding build_encoding_table_def by (rule traverse_keys) simp

lemma build_encoding_table_set:
  assumes "distinct (symbols t)"
  shows "set (build_encoding_table (Some t)) = set (codes t)"
proof -
  have "(s, c) \<in> set (build_encoding_table (Some t)) \<longleftrightarrow> (s, c) \<in> set (codes t)" for s c
    using build_encoding_table_lookup [OF assms, of s c] build_encoding_table_keys [of "Some t"]
    by simp
  then show ?thesis by auto
qed

lemma reverse_fold_lookup:
  "map_of (fold (\<lambda>(symbol, code) rt. AList.update code symbol rt) table rt) c =
     (case map_of (rev (map (\<lambda>(symbol, code). (code, symbol)) table)) c of
        Some s \<Rightarrow> Some s | None \<Rightarrow> map_of rt c)"
  by (induction table arbitrary: rt)
     (auto simp: update_conv' map_add_def split: option.splits)

lemma build_reverse_table_lookup:
  assumes "distinct (symbols t)"
  shows "map_of (build_reverse_table (build_encoding_table (Some t))) c = Some s
           \<longleftrightarrow> (s, c) \<in> set (codes t)"
proof -
  let ?table = "build_encoding_table (Some t)"
  let ?swapped = "rev (map (\<lambda>(symbol, code). (code, symbol)) ?table)"
  have set: "set ?swapped = {(c, s). (s, c) \<in> set (codes t)}"
    using build_encoding_table_set [OF assms] by auto
  have eq: "map_of (build_reverse_table ?table) c = map_of ?swapped c"
    using reverse_fold_lookup [of ?table "[]" c]
    by (simp add: build_reverse_table_def split: option.splits)
  show ?thesis
  proof
    assume "map_of (build_reverse_table ?table) c = Some s"
    with eq have "(c, s) \<in> set ?swapped" by (metis map_of_SomeD)
    with set show "(s, c) \<in> set (codes t)" by auto
  next
    assume in_codes: "(s, c) \<in> set (codes t)"
    with set have "(c, s) \<in> set ?swapped" by auto
    then have "c \<in> fst ` set ?swapped" by force
    then obtain s' where s': "map_of ?swapped c = Some s'"
      by (metis domD dom_map_of_conv_image_fst)
    then have "(c, s') \<in> set ?swapped" by (metis map_of_SomeD)
    with set have "(s', c) \<in> set (codes t)" by auto
    with in_codes codes_prefix_free [of s' c t s c] have "s' = s" by simp
    with s' eq show "map_of (build_reverse_table ?table) c = Some s" by simp
  qed
qed

section \<open>Encoder and table decoder\<close>

lemma encode_with_table_present:
  "set message \<subseteq> dom (map_of table) \<Longrightarrow>
   encode_with_table message table = Inr (concat (map (\<lambda>s. the (map_of table s)) message))"
  by (induction message) auto

lemma encode_with_table_absent:
  "x \<in> set message \<Longrightarrow> map_of table x = None \<Longrightarrow>
   encode_with_table message table = Inl KeyError"
proof (induction message)
  case Nil
  then show ?case by simp
next
  case (Cons a message)
  show ?case
  proof (cases "map_of table a")
    case None
    then show ?thesis by simp
  next
    case (Some code)
    with Cons.prems have "x \<in> set message" by auto
    with Cons.IH Cons.prems(2) Some show ?thesis by simp
  qed
qed

lemma decode_one_code:
  assumes code: "map_of rt c = Some s"
    and free: "\<And>u. u \<noteq> [] \<Longrightarrow> strict_prefix u c \<Longrightarrow> map_of rt u = None"
  shows "cur @ c2 = c \<Longrightarrow> c2 \<noteq> [] \<Longrightarrow>
         decode_with_table_loop (c2 @ rest) rt decoded cur
           = decode_with_table_loop rest rt (decoded @ [s]) []"
proof (induction c2 arbitrary: cur)
  case Nil
  then show ?case by simp
next
  case (Cons b c2)
  show ?case
  proof (cases "c2 = []")
    case True
    with Cons.prems code show ?thesis by simp
  next
    case False
    with Cons.prems have "strict_prefix (cur @ [b]) c"
      by (auto simp: strict_prefix_def prefix_def)
    then have "map_of rt (cur @ [b]) = None"
      using free by simp
    moreover have "decode_with_table_loop (c2 @ rest) rt decoded (cur @ [b])
           = decode_with_table_loop rest rt (decoded @ [s]) []"
      using Cons.IH [of "cur @ [b]"] Cons.prems False by simp
    ultimately show ?thesis by simp
  qed
qed

lemma decode_pending_bits:
  "(\<And>u. u \<noteq> [] \<Longrightarrow> prefix u (cur @ p) \<Longrightarrow> map_of rt u = None) \<Longrightarrow>
   decode_with_table_loop p rt decoded cur = decoded"
proof (induction p arbitrary: cur)
  case Nil
  show ?case by simp
next
  case (Cons b p)
  have "map_of rt (cur @ [b]) = None"
    using Cons.prems [of "cur @ [b]"] by simp
  moreover have "decode_with_table_loop p rt decoded (cur @ [b]) = decoded"
    using Cons.IH [of "cur @ [b]"] Cons.prems by simp
  ultimately show ?case by simp
qed

section \<open>Symbols of a built tree\<close>

lemma inj_greedy_symbol: "inj greedy_symbol"
  by (auto simp: inj_def greedy_symbol_def split: if_splits)

lemma huffman_tree_facts:
  assumes "create_forest fs = Inr forest" and "huffman forest = Inr (Some t)"
  shows "distinct (symbols t)"
    and "num_leaves t = length forest"
    and "set (symbols t) = {i. i < length fs \<and> 0 < fs ! i}"
proof -
  note facts = create_forest_facts [OF assms(1)]
  from assms(2) have ne: "forest \<noteq> []"
    by (auto simp: huffman_def)
  from merge_loop_leaves [OF ne facts(1)] assms(2) ne have
    t: "num_leaves t = length forest"
       "mset (symbols t) = mset (map (\<lambda>n. the (get_symbol n)) forest)"
    by (auto simp: huffman_def)
  show "num_leaves t = length forest" by (rule t(1))
  have "distinct (map (\<lambda>n. the (get_symbol n)) forest)"
    unfolding facts(3) by simp
  with t(2) show "distinct (symbols t)"
    by (metis mset_eq_imp_distinct_iff)
  from t(2) have "set (symbols t) = set (map (\<lambda>n. the (get_symbol n)) forest)"
    by (metis mset_eq_setD)
  then show "set (symbols t) = {i. i < length fs \<and> 0 < fs ! i}"
    unfolding facts(3) by auto
qed

lemma build_huffman_tree_facts:
  assumes "build_huffman_tree fs = Inr (Some t)"
  shows "distinct (symbols t)"
    and "num_leaves t = length (filter (\<lambda>f. 0 < f) fs)"
    and "set (symbols t) = greedy_symbol ` {i. i < length fs \<and> 0 < fs ! i}"
proof -
  from assms obtain forest where c: "initialize_forest fs = Inr forest"
    by (auto simp: build_huffman_tree_def split: sum.splits)
  note facts = initialize_forest_facts(1,2) [OF c] initialize_forest_symbols [OF c]
  from assms c have h: "huffman forest = Inr (Some t)"
    by (simp add: build_huffman_tree_eq)
  then have ne: "forest \<noteq> []"
    by (auto simp: huffman_def)
  from merge_loop_leaves [OF ne facts(1)] h ne have
    t: "num_leaves t = length forest"
       "mset (symbols t) = mset (map (\<lambda>n. the (get_symbol n)) forest)"
    by (auto simp: huffman_def)
  from t(1) facts(2) show "num_leaves t = length (filter (\<lambda>f. 0 < f) fs)"
    by (metis length_map)
  have "distinct (map (\<lambda>n. the (get_symbol n)) forest)"
    unfolding facts(3) by (simp add: distinct_map inj_on_subset [OF inj_greedy_symbol])
  with t(2) show "distinct (symbols t)"
    by (metis mset_eq_imp_distinct_iff)
  from t(2) have "set (symbols t) = set (map (\<lambda>n. the (get_symbol n)) forest)"
    by (metis mset_eq_setD)
  then show "set (symbols t) = greedy_symbol ` {i. i < length fs \<and> 0 < fs ! i}"
    unfolding facts(3) by auto
qed

section \<open>The table of Greedy\_Alg.py\<close>

lemma codes_opt_simps [simp]:
  "codes_opt None = []"
  "codes_opt (Some (Node f (Some symbol) l r)) = [(symbol, [])]"
  "codes_opt (Some (Node f None l r)) =
     map (\<lambda>(s, p). (s, bit0 # p)) (codes_opt l) @ map (\<lambda>(s, p). (s, bit1 # p)) (codes_opt r)"
  by (simp_all add: codes_opt_def split: option.splits)

lemma pos_inj: "alphabet a \<Longrightarrow> alphabet b \<Longrightarrow> pos a = pos b \<Longrightarrow> a = b"
  by (auto simp: alphabet_def pos_def split: if_splits)

lemma pos_less: "alphabet s \<Longrightarrow> pos s < 27"
  by (auto simp: alphabet_def pos_def)

lemma list_set_alphabet:
  "alphabet s \<Longrightarrow> length table = 27 \<Longrightarrow>
   list_set table (table_index s) code = Inr (table[pos s := code])"
  by (auto simp: alphabet_def pos_def table_index_def list_set_def py_index_def nat_diff_distrib')

lemma list_get_alphabet:
  "alphabet s \<Longrightarrow> length table = 27 \<Longrightarrow> list_get table (table_index s) = Inr (table ! pos s)"
  by (auto simp: alphabet_def pos_def table_index_def list_get_def py_index_def nat_diff_distrib')

lemma greedy_traverse_table:
  "distinct (map fst (codes_opt n)) \<Longrightarrow> \<forall>s\<in>set (map fst (codes_opt n)). alphabet s \<Longrightarrow>
   length table = 27 \<Longrightarrow>
   \<exists>table'. greedy_traverse n code table = Inr table' \<and> length table' = 27
     \<and> (\<forall>(s, p)\<in>set (codes_opt n). table' ! pos s = code @ p)
     \<and> (\<forall>j. j \<notin> pos ` set (map fst (codes_opt n)) \<longrightarrow> table' ! j = table ! j)"
proof (induction n code table rule: greedy_traverse.induct)
  case (1 code table)
  then show ?case by simp
next
  case (2 f sy l r code table)
  show ?case
  proof (cases sy)
    case (Some symbol)
    with "2.prems" have "alphabet symbol" by simp
    from list_set_alphabet [OF this "2.prems"(3)] pos_less [OF this] Some "2.prems"(3)
    show ?thesis by simp
  next
    case None
    let ?L = "codes_opt l" and ?R = "codes_opt r"
    from None have sym: "map fst (codes_opt (Some (Node f sy l r))) = map fst ?L @ map fst ?R"
      by (simp add: comp_def case_prod_unfold)
    from "2.prems"(1) have dl: "distinct (map fst ?L)" and dr: "distinct (map fst ?R)"
      and disj: "set (map fst ?L) \<inter> set (map fst ?R) = {}"
      unfolding sym by simp_all
    from "2.prems"(2) have al: "\<forall>s\<in>set (map fst ?L). alphabet s"
      and ar: "\<forall>s\<in>set (map fst ?R). alphabet s"
      unfolding sym by simp_all
    from "2.IH"(1) [OF None dl al "2.prems"(3)] obtain table1 where
      t1: "greedy_traverse l (code @ [bit0]) table = Inr table1" "length table1 = 27"
          "\<forall>(s, p)\<in>set ?L. table1 ! pos s = (code @ [bit0]) @ p"
          "\<forall>j. j \<notin> pos ` set (map fst ?L) \<longrightarrow> table1 ! j = table ! j"
      by blast
    from "2.IH"(2) [OF None t1(1) dr ar t1(2)] obtain table2 where
      t2: "greedy_traverse r (code @ [bit1]) table1 = Inr table2" "length table2 = 27"
          "\<forall>(s, p)\<in>set ?R. table2 ! pos s = (code @ [bit1]) @ p"
          "\<forall>j. j \<notin> pos ` set (map fst ?R) \<longrightarrow> table2 ! j = table1 ! j"
      by blast
    have keep: "table2 ! pos s = table1 ! pos s" if "(s, p) \<in> set ?L" for s p
    proof -
      have "pos s \<notin> pos ` set (map fst ?R)"
      proof
        assume "pos s \<in> pos ` set (map fst ?R)"
        then obtain s' where s': "s' \<in> set (map fst ?R)" "pos s = pos s'" by auto
        from that have "s \<in> set (map fst ?L)" by force
        with al ar s' pos_inj [of s s'] have "s = s'" by auto
        with s' \<open>s \<in> set (map fst ?L)\<close> disj show False by auto
      qed
      with t2(4) show ?thesis by simp
    qed
    have "greedy_traverse (Some (Node f sy l r)) code table = Inr table2"
      using None t1(1) t2(1) by simp
    moreover have "\<forall>(s, p)\<in>set (codes_opt (Some (Node f sy l r))). table2 ! pos s = code @ p"
      using None t1(3) t2(3) keep by auto
    moreover have "\<forall>j. j \<notin> pos ` set (map fst (codes_opt (Some (Node f sy l r))))
                     \<longrightarrow> table2 ! j = table ! j"
      unfolding sym using t1(4) t2(4) by (simp add: image_Un)
    ultimately show ?thesis using t2(2) by blast
  qed
qed

lemma alphabet_greedy_symbol: "i < 27 \<Longrightarrow> alphabet (greedy_symbol i)"
  by (auto simp: alphabet_def greedy_symbol_def)

text \<open>A traversal that returns a table has written every leaf inside the table.\<close>

lemma greedy_traverse_in_range:
  "greedy_traverse n code table = Inr table' \<Longrightarrow>
   length table' = length table
     \<and> (\<forall>s\<in>set (map fst (codes_opt n)). py_index (length table) (table_index s) \<noteq> None)"
proof (induction n code table arbitrary: table' rule: greedy_traverse.induct)
  case (1 code table)
  then show ?case by simp
next
  case (2 f sy l r code table)
  show ?case
  proof (cases sy)
    case (Some symbol)
    with "2.prems" show ?thesis
      by (auto simp: list_set_def split: option.splits)
  next
    case None
    with "2.prems" obtain table1 where
      t1: "greedy_traverse l (code @ [bit0]) table = Inr table1"
          "greedy_traverse r (code @ [bit1]) table1 = Inr table'"
      by (auto split: sum.splits)
    from "2.IH"(1) [OF None t1(1)] "2.IH"(2) [OF None t1(1) t1(2)] None show ?thesis
      by (auto simp: comp_def case_prod_unfold)
  qed
qed

lemma greedy_tree_alphabet:
  assumes "build_huffman_tree fs = Inr (Some t)"
    and "greedy_build_encoding_table (Some t) = Inr gtable"
  shows "\<forall>s\<in>set (symbols t). alphabet s"
proof
  fix s assume s: "s \<in> set (symbols t)"
  from greedy_traverse_in_range [of "Some t" "[]" "replicate 27 []" gtable] assms(2) s
  have "py_index 27 (table_index s) \<noteq> None"
    by (auto simp: greedy_build_encoding_table_def codes_opt_def symbols_def)
  moreover from build_huffman_tree_facts(3) [OF assms(1)] s obtain i where
    "s = greedy_symbol i" by auto
  ultimately show "alphabet s"
    by (auto simp: py_index_def table_index_def greedy_symbol_def alphabet_def
        split: if_splits)
qed

text \<open>
  Claim C2. In the table that \<open>build_encoding_table\<close> of \<open>Huffman.py\<close> derives from a
  built tree with at least two leaves, the keys are the symbols of the tree, each once,
  and for two different symbols each code is a non-empty string of \<open>0\<close> and \<open>1\<close>, the
  codes differ, and neither is a prefix of the other. The same holds for the entries that
  a table of \<open>Greedy_Alg.py\<close> holds for two different symbols of a tree built by
  \<open>build_huffman_tree\<close>; such a table has 27 entries, and it is produced whenever the
  list of frequencies has at most 27 entries.
\<close>

theorem code_tables_prefix_free:
  "(create_forest frequencies = Inr forest \<and> huffman forest = Inr (Some t)
      \<and> 2 \<le> num_leaves t \<and> table = build_encoding_table (Some t) \<longrightarrow>
      distinct (map fst table) \<and> set (map fst table) = set (symbols t)
      \<and> (\<forall>a b ca cb. map_of table a = Some ca \<and> map_of table b = Some cb \<and> a \<noteq> b \<longrightarrow>
            ca \<noteq> [] \<and> set ca \<subseteq> {bit0, bit1} \<and> ca \<noteq> cb
            \<and> \<not> prefix ca cb \<and> \<not> prefix cb ca))
   \<and> (build_huffman_tree frequencies = Inr (Some t') \<and> 2 \<le> num_leaves t' \<longrightarrow>
      (length frequencies \<le> 27 \<longrightarrow>
         (\<exists>gtable. greedy_build_encoding_table (Some t') = Inr gtable))
      \<and> (\<forall>gtable. greedy_build_encoding_table (Some t') = Inr gtable \<longrightarrow>
           length gtable = 27
           \<and> (\<forall>a\<in>set (symbols t'). \<forall>b\<in>set (symbols t'). a \<noteq> b \<longrightarrow>
                (\<exists>ca cb. list_get gtable (table_index a) = Inr ca
                   \<and> list_get gtable (table_index b) = Inr cb
                   \<and> ca \<noteq> [] \<and> set ca \<subseteq> {bit0, bit1} \<and> ca \<noteq> cb
                   \<and> \<not> prefix ca cb \<and> \<not> prefix cb ca))))"
proof (intro conjI impI)
  assume a: "create_forest frequencies = Inr forest \<and> huffman forest = Inr (Some t)
      \<and> 2 \<le> num_leaves t \<and> table = build_encoding_table (Some t)"
  then have d: "distinct (symbols t)" and two: "2 \<le> num_leaves t"
    and table: "table = build_encoding_table (Some t)"
    using huffman_tree_facts(1) by auto
  note lookup = build_encoding_table_lookup [OF d]
  show "distinct (map fst table)"
    unfolding table by (rule build_encoding_table_keys)
  show "set (map fst table) = set (symbols t)"
    unfolding table using build_encoding_table_set [OF d] by (simp add: symbols_def)
  show "\<forall>a b ca cb. map_of table a = Some ca \<and> map_of table b = Some cb \<and> a \<noteq> b \<longrightarrow>
            ca \<noteq> [] \<and> set ca \<subseteq> {bit0, bit1} \<and> ca \<noteq> cb
            \<and> \<not> prefix ca cb \<and> \<not> prefix cb ca"
  proof (intro allI impI)
    fix a b ca cb
    assume "map_of table a = Some ca \<and> map_of table b = Some cb \<and> a \<noteq> b"
    then have ab: "(a, ca) \<in> set (codes t)" "(b, cb) \<in> set (codes t)" "a \<noteq> b"
      using lookup table by auto
    from codes_prefix_free [OF ab(1,2)] codes_prefix_free [OF ab(2,1)] ab(3)
    have "\<not> prefix ca cb" "\<not> prefix cb ca" by auto
    moreover from this have "ca \<noteq> cb" by auto
    ultimately show "ca \<noteq> [] \<and> set ca \<subseteq> {bit0, bit1} \<and> ca \<noteq> cb
            \<and> \<not> prefix ca cb \<and> \<not> prefix cb ca"
      using codes_nonempty [OF two ab(1)] codes_bits [OF ab(1)] by simp
  qed
next
  assume a: "build_huffman_tree frequencies = Inr (Some t') \<and> 2 \<le> num_leaves t'"
    and l: "length frequencies \<le> 27"
  then have b: "build_huffman_tree frequencies = Inr (Some t')" by simp
  note facts = build_huffman_tree_facts [OF b]
  from facts(3) l have alpha: "\<forall>s\<in>set (symbols t'). alphabet s"
    by (auto intro!: alphabet_greedy_symbol)
  from greedy_traverse_table [of "Some t'" "replicate 27 []" "[]"] facts(1) alpha
  show "\<exists>gtable. greedy_build_encoding_table (Some t') = Inr gtable"
    by (auto simp: greedy_build_encoding_table_def codes_opt_def symbols_def)
next
  assume a: "build_huffman_tree frequencies = Inr (Some t') \<and> 2 \<le> num_leaves t'"
  show "\<forall>gtable. greedy_build_encoding_table (Some t') = Inr gtable \<longrightarrow>
           length gtable = 27
           \<and> (\<forall>a\<in>set (symbols t'). \<forall>b\<in>set (symbols t'). a \<noteq> b \<longrightarrow>
                (\<exists>ca cb. list_get gtable (table_index a) = Inr ca
                   \<and> list_get gtable (table_index b) = Inr cb
                   \<and> ca \<noteq> [] \<and> set ca \<subseteq> {bit0, bit1} \<and> ca \<noteq> cb
                   \<and> \<not> prefix ca cb \<and> \<not> prefix cb ca))"
  proof (intro allI impI)
    fix gtable
    assume g1: "greedy_build_encoding_table (Some t') = Inr gtable"
    with a have b: "build_huffman_tree frequencies = Inr (Some t')" and two: "2 \<le> num_leaves t'"
      by simp_all
    note facts = build_huffman_tree_facts [OF b]
    note alpha = greedy_tree_alphabet [OF b g1]
    from greedy_traverse_table [of "Some t'" "replicate 27 []" "[]"] facts(1) alpha g1
    have g: "length gtable = 27" "\<forall>(s, p)\<in>set (codes t'). gtable ! pos s = p"
      by (auto simp: greedy_build_encoding_table_def codes_opt_def symbols_def)
    have "\<exists>ca cb. list_get gtable (table_index a) = Inr ca
            \<and> list_get gtable (table_index b) = Inr cb
            \<and> ca \<noteq> [] \<and> set ca \<subseteq> {bit0, bit1} \<and> ca \<noteq> cb
            \<and> \<not> prefix ca cb \<and> \<not> prefix cb ca"
      if "a \<in> set (symbols t')" "b \<in> set (symbols t')" "a \<noteq> b" for a b
    proof -
      from that obtain ca cb where ab: "(a, ca) \<in> set (codes t')" "(b, cb) \<in> set (codes t')"
        by (auto simp: symbols_def)
      with g(2) have "gtable ! pos a = ca" "gtable ! pos b = cb" by auto
      with that alpha g(1) have get: "list_get gtable (table_index a) = Inr ca"
        "list_get gtable (table_index b) = Inr cb"
        by (simp_all add: list_get_alphabet)
      from codes_prefix_free [OF ab(1,2)] codes_prefix_free [OF ab(2,1)] that(3)
      have "\<not> prefix ca cb" "\<not> prefix cb ca" by auto
      moreover from this have "ca \<noteq> cb" by auto
      ultimately show ?thesis
        using get codes_nonempty [OF two ab(1)] codes_bits [OF ab(1)] by simp
    qed
    with g(1) show "length gtable = 27
             \<and> (\<forall>a\<in>set (symbols t'). \<forall>b\<in>set (symbols t'). a \<noteq> b \<longrightarrow>
                  (\<exists>ca cb. list_get gtable (table_index a) = Inr ca
                     \<and> list_get gtable (table_index b) = Inr cb
                     \<and> ca \<noteq> [] \<and> set ca \<subseteq> {bit0, bit1} \<and> ca \<noteq> cb
                     \<and> \<not> prefix ca cb \<and> \<not> prefix cb ca))"
      by blast
  qed
qed

theorem code_tables_prefix_free_witness:
  "let forest = [leaf 2 0, leaf 1 1, leaf 1 2];
       t = Node 4 None (Some (leaf 2 0)) (Some (new_node (leaf 1 1) (leaf 1 2)));
       t' = Node 4 None (Some (leaf 2 65)) (Some (new_node (leaf 1 66) (leaf 1 67)));
       table = build_encoding_table (Some t)
   in create_forest [2, 1, 1] = Inr forest \<and> huffman forest = Inr (Some t)
      \<and> 2 \<le> num_leaves t \<and> build_huffman_tree [2, 1, 1] = Inr (Some t')
      \<and> 2 \<le> num_leaves t'
      \<and> distinct (map fst table) \<and> set (map fst table) = set (symbols t)
      \<and> (\<forall>a b ca cb. map_of table a = Some ca \<and> map_of table b = Some cb \<and> a \<noteq> b \<longrightarrow>
            ca \<noteq> [] \<and> set ca \<subseteq> {bit0, bit1} \<and> ca \<noteq> cb
            \<and> \<not> prefix ca cb \<and> \<not> prefix cb ca)
      \<and> (\<exists>gtable. greedy_build_encoding_table (Some t') = Inr gtable \<and> length gtable = 27
         \<and> (\<forall>a\<in>set (symbols t'). \<forall>b\<in>set (symbols t'). a \<noteq> b \<longrightarrow>
              (\<exists>ca cb. list_get gtable (table_index a) = Inr ca
                 \<and> list_get gtable (table_index b) = Inr cb
                 \<and> ca \<noteq> [] \<and> set ca \<subseteq> {bit0, bit1} \<and> ca \<noteq> cb
                 \<and> \<not> prefix ca cb \<and> \<not> prefix cb ca)))"
proof -
  define forest where "forest = [leaf 2 0, leaf 1 1, leaf 1 2]"
  define t where "t = Node 4 None (Some (leaf 2 0)) (Some (new_node (leaf 1 1) (leaf 1 2)))"
  define t' where "t' = Node 4 None (Some (leaf 2 65)) (Some (new_node (leaf 1 66) (leaf 1 67)))"
  have c: "create_forest [2, 1, 1] = Inr forest"
    by (simp add: forest_def create_forest_def chr_def leaf_def upt_rec)
  have h: "huffman forest = Inr (Some t)"
    unfolding forest_def t_def by code_simp
  have i: "initialize_forest [2, 1, 1] = Inr [leaf 2 65, leaf 1 66, leaf 1 67]"
    by (simp add: initialize_forest_def chr_def leaf_def)
  have "huffman [leaf 2 65, leaf 1 66, leaf 1 67] = Inr (Some t')"
    unfolding t'_def by code_simp
  with i have b: "build_huffman_tree [2, 1, 1] = Inr (Some t')"
    by (simp add: build_huffman_tree_eq)
  have n: "2 \<le> num_leaves t" "2 \<le> num_leaves t'"
    by (simp_all add: t_def t'_def)
  have l: "length [2, 1, 1 :: int] \<le> 27" by simp
  note claim = code_tables_prefix_free [of "[2, 1, 1]" forest t "build_encoding_table (Some t)" t']
  note left = claim [THEN conjunct1, rule_format, OF conjI [OF c conjI [OF h conjI [OF n(1) refl]]]]
  note right = claim [THEN conjunct2, THEN mp, OF conjI [OF b n(2)]]
  from right [THEN conjunct1, THEN mp, OF l] obtain gtable where
    g: "greedy_build_encoding_table (Some t') = Inr gtable"
    by (rule exE)
  note entries = right [THEN conjunct2, THEN spec, THEN mp, OF g]
  have greedy: "\<exists>gtable. greedy_build_encoding_table (Some t') = Inr gtable \<and> length gtable = 27
         \<and> (\<forall>a\<in>set (symbols t'). \<forall>b\<in>set (symbols t'). a \<noteq> b \<longrightarrow>
              (\<exists>ca cb. list_get gtable (table_index a) = Inr ca
                 \<and> list_get gtable (table_index b) = Inr cb
                 \<and> ca \<noteq> [] \<and> set ca \<subseteq> {bit0, bit1} \<and> ca \<noteq> cb
                 \<and> \<not> prefix ca cb \<and> \<not> prefix cb ca))"
    by (rule exI [of _ gtable], rule conjI [OF g entries])
  show ?thesis
    unfolding Let_def forest_def [symmetric] t_def [symmetric] t'_def [symmetric]
    using c h n b left greedy
    by (intro conjI) (assumption | erule conjunct1 | elim conjE, assumption)+
qed

section \<open>Frequencies of a message\<close>

lemma py_index_nat: "c < n \<Longrightarrow> py_index n (int c) = Some c"
  by (simp add: py_index_def)

lemma frequency_loop_counts:
  "\<forall>c\<in>set message. c < length fs \<Longrightarrow>
   frequency_loop message fs = Inr (map (\<lambda>c. fs ! c + int (count_list message c)) [0..<length fs])"
proof (induction message arbitrary: fs)
  case Nil
  then show ?case by (simp add: map_nth)
next
  case (Cons char message)
  then have c: "char < length fs" by simp
  have "frequency_loop (char # message) fs = frequency_loop message (fs[char := fs ! char + 1])"
    using c by (simp add: list_get_def list_set_def py_index_nat)
  also have "\<dots> = Inr (map (\<lambda>c. fs[char := fs ! char + 1] ! c + int (count_list message c))
                       [0..<length fs])"
    using Cons.IH [of "fs[char := fs ! char + 1]"] Cons.prems by simp
  also have "map (\<lambda>c. fs[char := fs ! char + 1] ! c + int (count_list message c)) [0..<length fs]
               = map (\<lambda>c. fs ! c + int (count_list (char # message) c)) [0..<length fs]"
    by (auto simp: nth_list_update)
  finally show ?case .
qed

lemma frequency_of_symbols_counts:
  "\<forall>c\<in>set message. c < 256 \<Longrightarrow>
   frequency_of_symbols message = Inr (map (\<lambda>c. int (count_list message c)) [0..<256])"
  using frequency_loop_counts [of message "replicate ASCII_SYMBOLS 0"]
  by (simp add: frequency_of_symbols_def ASCII_SYMBOLS_def)

lemma create_forest_eq:
  "length fs \<le> 1114112 \<Longrightarrow>
   create_forest fs = Inr (map (\<lambda>i. leaf (fs ! i) i) (filter (\<lambda>i. 0 < fs ! i) [0..<length fs]))"
  using create_forest_total [of fs] create_forest_Inr [of fs] by auto

lemma filter_upt_sorted:
  "filter P [0..<n] = sorted_list_of_set {i. i < n \<and> P i}"
proof -
  have "sorted (filter P [0..<n])" "distinct (filter P [0..<n])"
    by (simp_all add: sorted_wrt_filter)
  moreover have "set (filter P [0..<n]) = {i. i < n \<and> P i}" by auto
  ultimately show ?thesis
    by (metis (no_types, lifting) finite_set sorted_list_of_set.idem_if_sorted_distinct)
qed

lemma built_forest:
  assumes "\<forall>c\<in>set message. c < 256"
  shows "\<exists>fs. frequency_of_symbols message = Inr fs
           \<and> create_forest fs
                = Inr (map (\<lambda>c. leaf (int (count_list message c)) c) (sort (remdups message)))"
proof -
  let ?fs = "map (\<lambda>c. int (count_list message c)) [0..<256]"
  have pos_count: "0 < count_list message i \<longleftrightarrow> i \<in> set message" for i
    using count_list_0_iff [of message i] by auto
  have "{i. i < 256 \<and> 0 < count_list message i} = set message"
    using assms by (auto simp: pos_count)
  then have idx: "filter (\<lambda>i. 0 < ?fs ! i) [0..<length ?fs] = sort (remdups message)"
    using filter_upt_sorted [of "\<lambda>i. 0 < ?fs ! i" 256]
    by (simp add: sorted_list_of_set_sort_remdups cong: conj_cong)
  have "map (\<lambda>i. leaf (?fs ! i) i) (sort (remdups message))
          = map (\<lambda>c. leaf (int (count_list message c)) c) (sort (remdups message))"
    using assms by simp
  with idx have "create_forest ?fs
      = Inr (map (\<lambda>c. leaf (int (count_list message c)) c) (sort (remdups message)))"
    using create_forest_eq [of ?fs] by simp
  with frequency_of_symbols_counts [OF assms] show ?thesis by blast
qed

section \<open>Input that ends inside a code\<close>

lemma codes_nonempty_internal:
  "(s, c) \<in> set (codes t) \<Longrightarrow> c \<noteq> [] \<Longrightarrow> (a, p) \<in> set (codes t) \<Longrightarrow> p \<noteq> []"
  by (cases t; cases "get_symbol t") (auto split: option.splits)

lemma decode_codes_then_prefix:
  assumes rt: "\<And>c s. map_of rt c = Some s \<longleftrightarrow> (s, c) \<in> set (codes t)"
    and pending: "(x, cx) \<in> set (codes t)" "strict_prefix p cx"
  shows "\<forall>s\<in>set message. (s, code s) \<in> set (codes t) \<Longrightarrow>
         decode_with_table_loop (concat (map code message) @ p) rt decoded []
           = decoded @ message"
proof (induction message arbitrary: decoded)
  case Nil
  have "map_of rt u = None" if "u \<noteq> []" "prefix u p" for u
  proof (rule ccontr)
    assume "map_of rt u \<noteq> None"
    then obtain s where "(s, u) \<in> set (codes t)" using rt by auto
    moreover from that(2) pending(2) have "prefix u cx" "u \<noteq> cx"
      by (auto simp: strict_prefix_def dest: prefix_order.trans)
    ultimately show False
      using codes_prefix_free [of s u t x cx] pending(1) by simp
  qed
  then show ?case
    using decode_pending_bits [of "[]" p rt decoded] by simp
next
  case (Cons s message)
  then have in_codes: "(s, code s) \<in> set (codes t)" by simp
  then have code: "map_of rt (code s) = Some s" using rt by simp
  from pending have "cx \<noteq> []" by auto
  from codes_nonempty_internal [OF pending(1) this in_codes] have ne: "code s \<noteq> []" .
  have free: "map_of rt u = None" if "u \<noteq> []" "strict_prefix u (code s)" for u
  proof (rule ccontr)
    assume "map_of rt u \<noteq> None"
    then obtain s' where "(s', u) \<in> set (codes t)" using rt by auto
    with that(2) show False
      using codes_prefix_free [of s' u t s "code s"] in_codes
      by (auto simp: strict_prefix_def)
  qed
  have "decode_with_table_loop (code s @ (concat (map code message) @ p)) rt decoded []
          = decode_with_table_loop (concat (map code message) @ p) rt (decoded @ [s]) []"
    using decode_one_code [OF code free, of "[]" "code s"] ne by simp
  then show ?case
    using Cons.IH [of "decoded @ [s]"] Cons.prems by simp
qed

text \<open>The table decoder on the codes of a message followed by the beginning of a code.\<close>

lemma decode_with_table_pending:
  assumes d: "distinct (symbols t)"
    and m: "set message \<subseteq> set (symbols t)"
    and c: "map_of (build_encoding_table (Some t)) s = Some c" "strict_prefix p c"
  shows "\<exists>enc. encode_with_table message (build_encoding_table (Some t)) = Inr enc
           \<and> decode_with_table (enc @ p) (build_reverse_table (build_encoding_table (Some t)))
                = message"
proof -
  let ?table = "build_encoding_table (Some t)"
  let ?code = "\<lambda>s. the (map_of ?table s)"
  note lookup = build_encoding_table_lookup [OF d]
  have dom: "dom (map_of ?table) = set (symbols t)"
    using build_encoding_table_set [OF d]
    by (simp add: dom_map_of_conv_image_fst symbols_def)
  with m have enc: "encode_with_table message ?table = Inr (concat (map ?code message))"
    by (simp add: encode_with_table_present)
  have codes: "\<forall>s\<in>set message. (s, ?code s) \<in> set (codes t)"
  proof
    fix a assume "a \<in> set message"
    with m dom obtain ca where ca: "map_of ?table a = Some ca" by blast
    then have "(a, ca) \<in> set (codes t)" using lookup by simp
    with ca show "(a, ?code a) \<in> set (codes t)" by simp
  qed
  from c(1) lookup have "(s, c) \<in> set (codes t)" by simp
  from decode_codes_then_prefix [of "build_reverse_table ?table" t, OF _ this c(2) codes, of "[]"]
    build_reverse_table_lookup [OF d]
  have "decode_with_table (concat (map ?code message) @ p) (build_reverse_table ?table) = message"
    by (simp add: decode_with_table_def)
  with enc show ?thesis by blast
qed

text \<open>The tree walk on the beginning of a code: no leaf is reached.\<close>

lemma decode_loop_prefix:
  "(s, c) \<in> set (codes n) \<Longrightarrow> strict_prefix p c \<Longrightarrow>
   decode_loop p root (Some n) decoded = Inr decoded"
proof (induction p arbitrary: n c)
  case Nil
  show ?case by simp
next
  case (Cons b p)
  then obtain c' where c: "c = b # c'" "strict_prefix p c'"
    by (cases c) auto
  obtain f sy l r where n: "n = Node f sy l r" by (cases n)
  from Cons.prems(1) c(1) n have sy: "sy = None"
    by (cases sy) auto
  from Cons.prems(1) c(1) n sy obtain a where
    a: "step_bit b (Some n) = Inr (Some a)" "(s, c') \<in> set (codes a)"
    by (auto simp: step_bit_def split: option.splits)
  from a(2) c(2) have "get_symbol a = None"
    by (cases a; cases "get_symbol a") auto
  with a(1) Cons.IH [OF a(2) c(2)] show ?case by simp
qed

lemma greedy_table_entries:
  assumes "build_huffman_tree fs = Inr (Some t)"
    and "greedy_build_encoding_table (Some t) = Inr gtable" and "c \<in> set gtable"
  shows "c = [] \<or> (\<exists>s. (s, c) \<in> set (codes t))"
proof -
  note facts = build_huffman_tree_facts [OF assms(1)]
  note alpha = greedy_tree_alphabet [OF assms(1,2)]
  from greedy_traverse_table [of "Some t" "replicate 27 []" "[]"] facts(1) alpha assms(2)
  have g: "length gtable = 27" "\<forall>(s, p)\<in>set (codes t). gtable ! pos s = p"
    "\<forall>j. j \<notin> pos ` set (symbols t) \<longrightarrow> gtable ! j = replicate 27 [] ! j"
    by (auto simp: greedy_build_encoding_table_def codes_opt_def symbols_def)
  from assms(3) g(1) obtain j where j: "j < 27" "c = gtable ! j"
    by (metis in_set_conv_nth)
  show ?thesis
  proof (cases "j \<in> pos ` set (symbols t)")
    case True
    then obtain s p where "(s, p) \<in> set (codes t)" "j = pos s"
      by (auto simp: symbols_def)
    with g(2) j(2) show ?thesis by auto
  next
    case False
    with g(3) j show ?thesis by simp
  qed
qed

lemma tree_AABC:
  "huffman [leaf 2 65, leaf 1 66, leaf 1 67]
     = Inr (Some (new_node (leaf 2 65) (new_node (leaf 1 66) (leaf 1 67))))"
  by code_simp

lemma table_AABC:
  "build_encoding_table (Some (new_node (leaf 2 65) (new_node (leaf 1 66) (leaf 1 67))))
     = [(65, str ''0''), (66, str ''10''), (67, str ''11'')]"
  by code_simp

lemma forest_AABC:
  "\<exists>fs. frequency_of_symbols (str ''AABC'') = Inr fs
     \<and> create_forest fs = Inr [leaf 2 65, leaf 1 66, leaf 1 67]"
proof -
  have "map (\<lambda>c. leaf (int (count_list (str ''AABC'') c)) c) (sort (remdups (str ''AABC'')))
          = [leaf 2 65, leaf 1 66, leaf 1 67]"
    by (simp add: str_def)
  with built_forest [of "str ''AABC''"] show ?thesis
    by (simp add: str_def)
qed

text \<open>
  Claim C3 fails: neither decoder has a check at the end of the input. The message
  \<open>AABC\<close> is encoded as \<open>001011\<close>; without its last bit, \<open>decode_with_table\<close> returns
  the partial message \<open>AAB\<close>, and on the single bit \<open>1\<close>, which ends inside a code,
  \<open>decode\<close> returns the empty string.
\<close>

theorem truncated_input_counterexample:
  "huffman_steps (str ''AABC'') =
     Inr (Some (new_node (leaf 2 65) (new_node (leaf 1 66) (leaf 1 67))),
          [(65, str ''0''), (66, str ''10''), (67, str ''11'')],
          str ''001011'', str ''AABC'')
   \<and> decode_with_table (str ''00101'')
         (build_reverse_table [(65, str ''0''), (66, str ''10''), (67, str ''11'')])
       = str ''AAB''
   \<and> decode (str ''1'') (Some (new_node (leaf 2 65) (new_node (leaf 1 66) (leaf 1 67))))
       = Inr []"
proof -
  from forest_AABC obtain fs where
    fs: "frequency_of_symbols (str ''AABC'') = Inr fs"
        "create_forest fs = Inr [leaf 2 65, leaf 1 66, leaf 1 67]"
    by blast
  have enc: "encode_with_table (str ''AABC'') [(65, str ''0''), (66, str ''10''), (67, str ''11'')]
               = Inr (str ''001011'')"
    by code_simp
  have dec: "decode_with_table (str ''001011'')
               (build_reverse_table [(65, str ''0''), (66, str ''10''), (67, str ''11'')])
             = str ''AABC''"
    by code_simp
  have "huffman_steps (str ''AABC'') =
     Inr (Some (new_node (leaf 2 65) (new_node (leaf 1 66) (leaf 1 67))),
          [(65, str ''0''), (66, str ''10''), (67, str ''11'')],
          str ''001011'', str ''AABC'')"
    by (simp add: huffman_steps_def fs tree_AABC table_AABC enc dec)
  moreover have "decode_with_table (str ''00101'')
         (build_reverse_table [(65, str ''0''), (66, str ''10''), (67, str ''11'')])
       = str ''AAB''"
    by code_simp
  moreover have
    "decode (str ''1'') (Some (new_node (leaf 2 65) (new_node (leaf 1 66) (leaf 1 67)))) = Inr []"
    by code_simp
  ultimately show ?thesis by blast
qed

text \<open>
  Claim C3, amended. For a table derived from a tree built by \<open>huffman\<close>, the codes of a
  message over the symbols of the tree followed by a proper beginning \<open>p\<close> of a code are
  decoded by \<open>decode_with_table\<close> to the message itself: the pending bits are dropped and
  nothing fails. On a proper beginning of an entry of its table, \<open>decode\<close> of
  \<open>Greedy_Alg.py\<close> returns the empty string.
\<close>

theorem truncated_input_not_detected:
  "(create_forest frequencies = Inr forest \<and> huffman forest = Inr (Some t)
      \<and> table = build_encoding_table (Some t) \<and> set message \<subseteq> set (symbols t)
      \<and> map_of table s = Some c \<and> strict_prefix p c \<longrightarrow>
      (\<exists>enc. encode_with_table message table = Inr enc
         \<and> decode_with_table (enc @ p) (build_reverse_table table) = message))
   \<and> (build_huffman_tree frequencies = Inr (Some t')
      \<and> greedy_build_encoding_table (Some t') = Inr gtable
      \<and> c' \<in> set gtable \<and> strict_prefix p' c' \<longrightarrow>
      decode p' (Some t') = Inr [])"
proof (intro conjI impI)
  assume a: "create_forest frequencies = Inr forest \<and> huffman forest = Inr (Some t)
      \<and> table = build_encoding_table (Some t) \<and> set message \<subseteq> set (symbols t)
      \<and> map_of table s = Some c \<and> strict_prefix p c"
  then have d: "distinct (symbols t)"
    using huffman_tree_facts(1) by blast
  from a have table: "table = build_encoding_table (Some t)"
    and m: "set message \<subseteq> set (symbols t)"
    and c: "map_of (build_encoding_table (Some t)) s = Some c" "strict_prefix p c"
    by auto
  show "\<exists>enc. encode_with_table message table = Inr enc
         \<and> decode_with_table (enc @ p) (build_reverse_table table) = message"
    unfolding table by (rule decode_with_table_pending [OF d m c])
next
  assume a: "build_huffman_tree frequencies = Inr (Some t')
      \<and> greedy_build_encoding_table (Some t') = Inr gtable
      \<and> c' \<in> set gtable \<and> strict_prefix p' c'"
  then have "c' = [] \<or> (\<exists>s. (s, c') \<in> set (codes t'))"
    using greedy_table_entries [of frequencies t' gtable c'] by blast
  with a obtain s where "(s, c') \<in> set (codes t')" by auto
  from decode_loop_prefix [OF this, of p' "Some t'" "[]"] a
  show "decode p' (Some t') = Inr []"
    by (simp add: decode_def join_methods_def)
qed

lemma counts_AABC:
  "count_frequencies (str ''AABC'')
     = Inr [2, 1, 1, 0, 0, 0, 0, 0, 0, 0, 0, 0, 0, 0, 0, 0, 0, 0, 0, 0, 0, 0, 0, 0, 0, 0, 0]"
  by code_simp

lemma greedy_tree_AABC:
  "build_huffman_tree [2, 1, 1, 0, 0, 0, 0, 0, 0, 0, 0, 0, 0, 0, 0, 0, 0, 0, 0, 0, 0, 0, 0, 0, 0, 0, 0]
     = Inr (Some (new_node (leaf 2 65) (new_node (leaf 1 66) (leaf 1 67))))"
proof -
  have "initialize_forest
      [2, 1, 1, 0, 0, 0, 0, 0, 0, 0, 0, 0, 0, 0, 0, 0, 0, 0, 0, 0, 0, 0, 0, 0, 0, 0, 0]
      = Inr [leaf 2 65, leaf 1 66, leaf 1 67]"
    by (simp add: initialize_forest_def chr_def leaf_def)
  then show ?thesis
    by (simp add: build_huffman_tree_eq tree_AABC)
qed

lemma greedy_table_AABC:
  "greedy_build_encoding_table (Some (new_node (leaf 2 65) (new_node (leaf 1 66) (leaf 1 67))))
     = Inr [str ''0'', str ''10'', str ''11'', [], [], [], [], [], [], [], [], [], [], [], [],
            [], [], [], [], [], [], [], [], [], [], [], []]"
  by code_simp

theorem truncated_input_not_detected_witness:
  "(\<exists>fs. frequency_of_symbols (str ''AABC'') = Inr fs
      \<and> create_forest fs = Inr [leaf 2 65, leaf 1 66, leaf 1 67])
   \<and> huffman [leaf 2 65, leaf 1 66, leaf 1 67]
       = Inr (Some (new_node (leaf 2 65) (new_node (leaf 1 66) (leaf 1 67))))
   \<and> strict_prefix (str ''1'') (str ''11'')
   \<and> (\<exists>enc. encode_with_table (str ''AAB'')
               (build_encoding_table
                  (Some (new_node (leaf 2 65) (new_node (leaf 1 66) (leaf 1 67))))) = Inr enc
         \<and> decode_with_table (enc @ str ''1'')
               (build_reverse_table (build_encoding_table
                  (Some (new_node (leaf 2 65) (new_node (leaf 1 66) (leaf 1 67))))))
             = str ''AAB'')
   \<and> count_frequencies (str ''AABC'')
       = Inr [2, 1, 1, 0, 0, 0, 0, 0, 0, 0, 0, 0, 0, 0, 0, 0, 0, 0, 0, 0, 0, 0, 0, 0, 0, 0, 0]
   \<and> build_huffman_tree
         [2, 1, 1, 0, 0, 0, 0, 0, 0, 0, 0, 0, 0, 0, 0, 0, 0, 0, 0, 0, 0, 0, 0, 0, 0, 0, 0]
       = Inr (Some (new_node (leaf 2 65) (new_node (leaf 1 66) (leaf 1 67))))
   \<and> greedy_build_encoding_table
         (Some (new_node (leaf 2 65) (new_node (leaf 1 66) (leaf 1 67))))
       = Inr [str ''0'', str ''10'', str ''11'', [], [], [], [], [], [], [], [], [], [], [], [],
              [], [], [], [], [], [], [], [], [], [], [], []]
   \<and> decode (str ''1'') (Some (new_node (leaf 2 65) (new_node (leaf 1 66) (leaf 1 67))))
       = Inr []"
proof -
  define t where "t = new_node (leaf 2 65) (new_node (leaf 1 66) (leaf 1 67))"
  define gtable where "gtable = [str ''0'', str ''10'', str ''11'', [], [], [], [], [], [], [],
    [], [], [], [], [], [], [], [], [], [], [], [], [], [], [], [], [] :: pystr]"
  define frequencies :: "int list" where "frequencies =
    [2, 1, 1, 0, 0, 0, 0, 0, 0, 0, 0, 0, 0, 0, 0, 0, 0, 0, 0, 0, 0, 0, 0, 0, 0, 0, 0]"
  from forest_AABC obtain fs where
    fs: "frequency_of_symbols (str ''AABC'') = Inr fs"
        "create_forest fs = Inr [leaf 2 65, leaf 1 66, leaf 1 67]"
    by blast
  have h: "huffman [leaf 2 65, leaf 1 66, leaf 1 67] = Inr (Some t)"
    unfolding t_def by (rule tree_AABC)
  have m: "set (str ''AAB'') \<subseteq> set (symbols t)"
    by (simp add: t_def str_def)
  have c: "map_of (build_encoding_table (Some t)) 67 = Some (str ''11'')"
    unfolding t_def table_AABC by simp
  have p: "strict_prefix (str ''1'') (str ''11'')"
    by (simp add: str_def)
  have b: "build_huffman_tree frequencies = Inr (Some t)"
    unfolding t_def frequencies_def by (rule greedy_tree_AABC)
  have g: "greedy_build_encoding_table (Some t) = Inr gtable"
    unfolding t_def gtable_def by (rule greedy_table_AABC)
  have e: "str ''11'' \<in> set gtable"
    by (simp add: gtable_def)
  note left = truncated_input_not_detected [of fs "[leaf 2 65, leaf 1 66, leaf 1 67]" t
      "build_encoding_table (Some t)" "str ''AAB''" 67 "str ''11''" "str ''1''",
      THEN conjunct1, rule_format,
      OF conjI [OF fs(2) conjI [OF h conjI [OF refl conjI [OF m conjI [OF c p]]]]]]
  note right = truncated_input_not_detected [of frequencies _ _ _ _ _ _ _
      t gtable "str ''11''" "str ''1''", THEN conjunct2, rule_format,
      OF conjI [OF b conjI [OF g conjI [OF e p]]]]
  from fs have "\<exists>fs. frequency_of_symbols (str ''AABC'') = Inr fs
      \<and> create_forest fs = Inr [leaf 2 65, leaf 1 66, leaf 1 67]"
    by blast
  with h p left counts_AABC b g right show ?thesis
    unfolding t_def frequencies_def gtable_def by (intro conjI) assumption+
qed

section \<open>The two scripts\<close>

text \<open>The run of \<open>Huffman.py\<close> on any message of characters below 256.\<close>

lemma huffman_steps_unfold:
  assumes "frequency_of_symbols message = Inr fs" and "create_forest fs = Inr forest"
    and "huffman forest = Inr root"
    and "encode_with_table message (build_encoding_table root) = Inr enc"
  shows "huffman_steps message =
           Inr (root, build_encoding_table root, enc,
                decode_with_table enc (build_reverse_table (build_encoding_table root)))"
  using assms by (simp add: huffman_steps_def Let_def)

lemma encode_with_table_empty_codes:
  "\<forall>s\<in>set message. map_of table s = Some [] \<Longrightarrow> encode_with_table message table = Inr []"
  by (induction message) auto

lemma huffman_main_result:
  assumes range: "\<forall>c\<in>set message. c < 256"
  shows "huffman_main message = (if card (set message) = 1 then Inl AssertionError else Inr ())"
proof -
  let ?forest = "map (\<lambda>c. leaf (int (count_list message c)) c) (sort (remdups message))"
  from built_forest [OF range] obtain fs where
    fs: "frequency_of_symbols message = Inr fs" "create_forest fs = Inr ?forest"
    by blast
  have len: "length ?forest = card (set message)"
    by (simp add: length_remdups_card_conv)
  consider (empty) "message = []" | (one) "card (set message) = 1"
    | (more) "2 \<le> card (set message)"
  proof -
    assume cases: "message = [] \<Longrightarrow> thesis" "card (set message) = 1 \<Longrightarrow> thesis"
      "2 \<le> card (set message) \<Longrightarrow> thesis"
    have "card (set message) = 0 \<or> card (set message) = 1 \<or> 2 \<le> card (set message)"
      by arith
    with cases show thesis by auto
  qed
  then show ?thesis
  proof cases
    case empty
    then have "?forest = []" by simp
    with fs have "create_forest fs = Inr []" by simp
    from huffman_steps_unfold [OF fs(1) this, of None "[]"] empty
    show ?thesis
      by (simp add: huffman_main_def huffman_def build_encoding_table_def
          build_reverse_table_def decode_with_table_def)
  next
    case one
    then obtain a where a: "set message = {a}"
      by (auto simp: card_1_singleton_iff)
    then have ne: "message \<noteq> []" by auto
    from one have "length (remdups message) = 1"
      by (simp add: length_remdups_card_conv)
    then obtain x where x: "remdups message = [x]"
      by (cases "remdups message") auto
    have "set (remdups message) = {a}" using a by simp
    with x have "x = a" by simp
    with x have "sort (remdups message) = [a]" by simp
    then have forest: "?forest = [leaf (int (count_list message a)) a]" by simp
    let ?t = "leaf (int (count_list message a)) a"
    have h: "huffman [?t] = Inr (Some ?t)"
      by (simp add: huffman_def)
    have table: "build_encoding_table (Some ?t) = [(a, [])]"
      by (simp add: build_encoding_table_def leaf_def)
    have enc: "encode_with_table message (build_encoding_table (Some ?t)) = Inr []"
      unfolding table using a by (intro encode_with_table_empty_codes) auto
    from huffman_steps_unfold [OF fs(1) fs(2) [unfolded forest] h enc] ne one
    show ?thesis
      by (simp add: huffman_main_def decode_with_table_def)
  next
    case more
    have ne: "?forest \<noteq> []"
    proof
      assume "?forest = []"
      then have "length ?forest = length ([] :: node list)" by (rule arg_cong)
      with len more show False by simp
    qed
    have lo: "leaves_only ?forest"
      by (auto simp: leaves_only_def)
    from merge_loop_leaves [OF ne lo] obtain t where
      t: "merge_loop ?forest = Inr t"
         "mset (symbols t) = mset (map (\<lambda>n. the (get_symbol n)) ?forest)"
      by blast
    from more have "message \<noteq> []" by auto
    with t(1) have h: "huffman ?forest = Inr (Some t)"
      by (simp add: huffman_def del: merge_loop.simps)
    note facts = huffman_tree_facts [OF fs(2) h]
    from t(2) have "set (symbols t) = set (map (\<lambda>n. the (get_symbol n)) ?forest)"
      by (metis mset_eq_setD)
    then have syms: "set (symbols t) = set message"
      by (simp add: comp_def leaf_def)
    from facts(2) len more have two: "2 \<le> num_leaves t" by simp
    then obtain s c where sc: "(s, c) \<in> set (codes t)"
      by (cases "codes t") (auto simp: num_leaves_codes)
    from codes_nonempty [OF two sc] have "strict_prefix [] c"
      by (cases c) simp_all
    moreover from sc have "map_of (build_encoding_table (Some t)) s = Some c"
      using build_encoding_table_lookup [OF facts(1)] by simp
    ultimately obtain enc where
      enc: "encode_with_table message (build_encoding_table (Some t)) = Inr enc"
           "decode_with_table (enc @ []) (build_reverse_table (build_encoding_table (Some t)))
              = message"
      using decode_with_table_pending [OF facts(1), of message s c "[]"] syms by auto
    from huffman_steps_unfold [OF fs h enc(1)] enc(2) more
    show ?thesis
      by (simp add: huffman_main_def)
  qed
qed

text \<open>The run of \<open>Greedy_Alg.py\<close> on a message of letters and spaces.\<close>

lemma count_loop_alphabet:
  "\<forall>c\<in>set input_string. alphabet c \<Longrightarrow> length fs = 27 \<Longrightarrow>
   \<exists>fs'. count_loop input_string fs = Inr fs' \<and> length fs' = 27"
proof (induction input_string arbitrary: fs)
  case Nil
  then show ?case by simp
next
  case (Cons char input_string)
  then have a: "alphabet char" by simp
  have idx: "(if char = space then 26 else int char - int ord_A) = table_index char"
    by (simp add: table_index_def)
  have "count_loop (char # input_string) fs
          = count_loop input_string (fs[pos char := fs ! pos char + 1])"
    unfolding count_loop.simps idx
    using list_get_alphabet [OF a Cons.prems(2)] list_set_alphabet [OF a Cons.prems(2)]
    by (simp add: Let_def)
  with Cons.IH [of "fs[pos char := fs ! pos char + 1]"] Cons.prems show ?case by simp
qed

lemma build_huffman_tree_total:
  assumes "length fs \<le> 27"
  shows "\<exists>root. build_huffman_tree fs = Inr root
           \<and> (\<forall>t. root = Some t \<longrightarrow> distinct (symbols t) \<and> (\<forall>s\<in>set (symbols t). alphabet s))"
proof -
  from assms obtain forest where c: "initialize_forest fs = Inr forest"
    using initialize_forest_total [of fs] by auto
  show ?thesis
  proof (cases "forest = []")
    case True
    with c show ?thesis by (simp add: build_huffman_tree_def)
  next
    case False
    from huffman_of_leaves [OF False initialize_forest_facts(1) [OF c]] obtain t where
      "huffman forest = Inr (Some t)" by blast
    with c have b: "build_huffman_tree fs = Inr (Some t)"
      by (simp add: build_huffman_tree_eq)
    note facts = build_huffman_tree_facts [OF b]
    from facts(3) assms have "\<forall>s\<in>set (symbols t). alphabet s"
      by (auto intro!: alphabet_greedy_symbol)
    with b facts(1) show ?thesis by simp
  qed
qed

lemma greedy_build_encoding_table_total:
  assumes "\<forall>t. root = Some t \<longrightarrow> distinct (symbols t) \<and> (\<forall>s\<in>set (symbols t). alphabet s)"
  shows "\<exists>table. greedy_build_encoding_table root = Inr table \<and> length table = 27"
proof (cases root)
  case None
  then show ?thesis by (simp add: greedy_build_encoding_table_def)
next
  case (Some t)
  with assms greedy_traverse_table [of "Some t" "replicate 27 []" "[]"] show ?thesis
    by (auto simp: greedy_build_encoding_table_def codes_opt_def symbols_def)
qed

lemma encode_loop_letter:
  "\<exists>c\<in>set input_string. c \<noteq> space \<Longrightarrow> length encoding_table = 27 \<Longrightarrow>
   encode_loop input_string encoding_table encoded = Inl TypeError"
proof (induction input_string arbitrary: encoded)
  case Nil
  then show ?case by simp
next
  case (Cons char input_string)
  show ?case
  proof (cases "char = space")
    case True
    with Cons.prems have "\<exists>c\<in>set input_string. c \<noteq> space" by auto
    from Cons.IH [OF this Cons.prems(2)] True Cons.prems(2) show ?thesis
      by (simp add: list_get_def py_index_def)
  next
    case False
    then show ?thesis by simp
  qed
qed

lemma greedy_main_letter:
  assumes "\<forall>c\<in>set message. alphabet c" and "\<exists>c\<in>set message. c \<noteq> space"
  shows "greedy_main message = Inl TypeError"
proof -
  from count_loop_alphabet [OF assms(1), of "replicate 27 0"] obtain fs where
    fs: "count_frequencies message = Inr fs" "length fs = 27"
    by (auto simp: count_frequencies_def)
  from build_huffman_tree_total [of fs] fs(2) obtain root where
    root: "build_huffman_tree fs = Inr root"
      "\<forall>t. root = Some t \<longrightarrow> distinct (symbols t) \<and> (\<forall>s\<in>set (symbols t). alphabet s)"
    by auto
  from greedy_build_encoding_table_total [OF root(2)] obtain table where
    table: "greedy_build_encoding_table root = Inr table" "length table = 27"
    by blast
  from encode_loop_letter [OF assms(2) table(2)] have "encode message table = Inl TypeError"
    by (simp add: encode_def)
  with fs(1) root(1) table(1) show ?thesis
    by (simp add: greedy_main_def)
qed

text \<open>
  Claim C1 fails on the code. The run of \<open>Huffman.py\<close> (characters below 256) ends in its
  own assertion exactly for the messages that consist of one repeated symbol, and
  returns the original message otherwise; the run of \<open>Greedy_Alg.py\<close> raises \<open>TypeError\<close>
  in \<open>encode\<close> for every message of letters and spaces that contains a letter.
\<close>

theorem round_trip_runs:
  "((\<forall>c\<in>set message. c < 256) \<longrightarrow>
      huffman_main message = (if card (set message) = 1 then Inl AssertionError else Inr ()))
   \<and> ((\<forall>c\<in>set message. alphabet c) \<and> (\<exists>c\<in>set message. c \<noteq> space) \<longrightarrow>
      greedy_main message = Inl TypeError)"
  using huffman_main_result [of message] greedy_main_letter [of message] by blast

theorem round_trip_runs_witness:
  "huffman_main (str ''AAAA'') = Inl AssertionError
   \<and> huffman_main (str ''HELLO WORLD'') = Inr ()
   \<and> greedy_main (str ''HELLO WORLD'') = Inl TypeError"
proof -
  have a: "\<forall>c\<in>set (str ''AAAA''). c < 256" "card (set (str ''AAAA'')) = 1"
    by (simp_all add: str_def)
  have h: "\<forall>c\<in>set (str ''HELLO WORLD''). c < 256" "card (set (str ''HELLO WORLD'')) \<noteq> 1"
    "\<forall>c\<in>set (str ''HELLO WORLD''). alphabet c" "\<exists>c\<in>set (str ''HELLO WORLD''). c \<noteq> space"
    by (simp_all add: str_def alphabet_def)
  from round_trip_runs [of "str ''AAAA''"] round_trip_runs [of "str ''HELLO WORLD''"] a h
  show ?thesis by simp
qed

section \<open>One-symbol alphabet\<close>

lemma forest_AAAA:
  "\<exists>fs. frequency_of_symbols (str ''AAAA'') = Inr fs \<and> create_forest fs = Inr [leaf 4 65]"
proof -
  have "map (\<lambda>c. leaf (int (count_list (str ''AAAA'') c)) c) (sort (remdups (str ''AAAA'')))
          = [leaf 4 65]"
    by (simp add: str_def)
  with built_forest [of "str ''AAAA''"] show ?thesis
    by (simp add: str_def)
qed

text \<open>
  Claim C4 fails on the code. For the message \<open>AAAA\<close> the tree is the single leaf, but
  both tables give its symbol the empty code and not \<open>0\<close>. In \<open>Huffman.py\<close> the message is
  encoded as the empty string and decoded as the empty string. In \<open>Greedy_Alg.py\<close>
  \<open>encode\<close> raises \<open>TypeError\<close>, and \<open>decode\<close> on the bits \<open>0000\<close>, which the claimed code
  would produce, raises \<open>AttributeError\<close> at the first bit.
\<close>

theorem single_symbol_message:
  "huffman_steps (str ''AAAA'') = Inr (Some (leaf 4 65), [(65, [])], [], [])
   \<and> count_frequencies (str ''AAAA'')
       = Inr [4, 0, 0, 0, 0, 0, 0, 0, 0, 0, 0, 0, 0, 0, 0, 0, 0, 0, 0, 0, 0, 0, 0, 0, 0, 0, 0]
   \<and> build_huffman_tree
         [4, 0, 0, 0, 0, 0, 0, 0, 0, 0, 0, 0, 0, 0, 0, 0, 0, 0, 0, 0, 0, 0, 0, 0, 0, 0, 0]
       = Inr (Some (leaf 4 65))
   \<and> greedy_build_encoding_table (Some (leaf 4 65)) = Inr (replicate 27 [])
   \<and> encode (str ''AAAA'') (replicate 27 []) = Inl TypeError
   \<and> decode (str ''0000'') (Some (leaf 4 65)) = Inl AttributeError"
proof -
  from forest_AAAA obtain fs where
    fs: "frequency_of_symbols (str ''AAAA'') = Inr fs" "create_forest fs = Inr [leaf 4 65]"
    by blast
  have h: "huffman [leaf 4 65] = Inr (Some (leaf 4 65))"
    by (simp add: huffman_def)
  have table: "build_encoding_table (Some (leaf 4 65)) = [(65, [])]"
    by (simp add: build_encoding_table_def leaf_def)
  have enc: "encode_with_table (str ''AAAA'') (build_encoding_table (Some (leaf 4 65))) = Inr []"
    unfolding table by (simp add: str_def)
  have "huffman_steps (str ''AAAA'') = Inr (Some (leaf 4 65), [(65, [])], [], [])"
    using huffman_steps_unfold [OF fs h enc]
    by (simp add: table decode_with_table_def)
  moreover have "count_frequencies (str ''AAAA'')
       = Inr [4, 0, 0, 0, 0, 0, 0, 0, 0, 0, 0, 0, 0, 0, 0, 0, 0, 0, 0, 0, 0, 0, 0, 0, 0, 0, 0]"
    by code_simp
  moreover have "build_huffman_tree
         [4, 0, 0, 0, 0, 0, 0, 0, 0, 0, 0, 0, 0, 0, 0, 0, 0, 0, 0, 0, 0, 0, 0, 0, 0, 0, 0]
       = Inr (Some (leaf 4 65))"
  proof -
    have "initialize_forest
        [4, 0, 0, 0, 0, 0, 0, 0, 0, 0, 0, 0, 0, 0, 0, 0, 0, 0, 0, 0, 0, 0, 0, 0, 0, 0, 0]
        = Inr [leaf 4 65]"
      by (simp add: initialize_forest_def chr_def leaf_def)
    then show ?thesis
      by (simp add: build_huffman_tree_eq h)
  qed
  moreover have "greedy_build_encoding_table (Some (leaf 4 65)) = Inr (replicate 27 [])"
    by code_simp
  moreover have "encode (str ''AAAA'') (replicate 27 []) = Inl TypeError"
    by code_simp
  moreover have "decode (str ''0000'') (Some (leaf 4 65)) = Inl AttributeError"
    by code_simp
  ultimately show ?thesis by blast
qed

section \<open>The encoders\<close>

lemma encode_loop_spaces:
  "\<forall>c\<in>set input_string. c = space \<Longrightarrow> length encoding_table = 27 \<Longrightarrow>
   encode_loop input_string encoding_table encoded
     = Inr (encoded @ map (\<lambda>c. encoding_table ! 26) input_string)"
  by (induction input_string arbitrary: encoded) (simp_all add: list_get_def py_index_def)

text \<open>
  Claim C5 holds for \<open>encode_with_table\<close> of \<open>Huffman.py\<close> (the concatenation of the codes,
  or \<open>KeyError\<close> when a symbol has no entry) and fails for \<open>encode\<close> of \<open>Greedy_Alg.py\<close>:
  with its 27-entry table, a message of spaces gives the concatenation of the entries for
  the space, and any message with another character raises \<open>TypeError\<close>, also when all of
  its symbols have codes in the table.
\<close>

theorem encoder_results:
  "(set message \<subseteq> dom (map_of table) \<longrightarrow>
      encode_with_table message table
        = Inr (concat (map (\<lambda>s. the (map_of table s)) message)))
   \<and> (\<not> set message \<subseteq> dom (map_of table) \<longrightarrow>
      encode_with_table message table = Inl KeyError)
   \<and> (length encoding_table = 27 \<and> (\<forall>c\<in>set message. c = space) \<longrightarrow>
      encode message encoding_table = Inr (concat (map (\<lambda>c. encoding_table ! 26) message)))
   \<and> (length encoding_table = 27 \<and> (\<exists>c\<in>set message. c \<noteq> space) \<longrightarrow>
      encode message encoding_table = Inl TypeError)"
proof (intro conjI impI)
  assume "set message \<subseteq> dom (map_of table)"
  then show "encode_with_table message table
        = Inr (concat (map (\<lambda>s. the (map_of table s)) message))"
    by (rule encode_with_table_present)
next
  assume "\<not> set message \<subseteq> dom (map_of table)"
  then obtain x where "x \<in> set message" "map_of table x = None" by auto
  then show "encode_with_table message table = Inl KeyError"
    by (rule encode_with_table_absent)
next
  assume "length encoding_table = 27 \<and> (\<forall>c\<in>set message. c = space)"
  then show "encode message encoding_table
      = Inr (concat (map (\<lambda>c. encoding_table ! 26) message))"
    by (simp add: encode_def encode_loop_spaces)
next
  assume "length encoding_table = 27 \<and> (\<exists>c\<in>set message. c \<noteq> space)"
  then show "encode message encoding_table = Inl TypeError"
    by (simp add: encode_def encode_loop_letter)
qed

theorem encoder_results_witness:
  "encode_with_table (str ''AABC'') [(65, str ''0''), (66, str ''10''), (67, str ''11'')]
     = Inr (str ''001011'')
   \<and> encode_with_table (str ''AABD'') [(65, str ''0''), (66, str ''10''), (67, str ''11'')]
     = Inl KeyError
   \<and> encode (str ''  '') (replicate 26 [] @ [str ''1'']) = Inr (str ''11'')
   \<and> encode (str ''AABC'')
        [str ''0'', str ''10'', str ''11'', [], [], [], [], [], [], [], [], [], [], [], [],
         [], [], [], [], [], [], [], [], [], [], [], []]
     = Inl TypeError"
proof -
  let ?table = "[(65, str ''0''), (66, str ''10''), (67, str ''11'')] :: (pychar, pystr) dict"
  let ?gtable = "[str ''0'', str ''10'', str ''11'', [], [], [], [], [], [], [], [], [], [], [], [],
         [], [], [], [], [], [], [], [], [], [], [], []] :: pystr list"
  have present: "set (str ''AABC'') \<subseteq> dom (map_of ?table)"
    and absent: "\<not> set (str ''AABD'') \<subseteq> dom (map_of ?table)"
    by (simp_all add: str_def)
  have spaces: "length (replicate 26 ([] :: pystr) @ [str ''1'']) = 27
      \<and> (\<forall>c\<in>set (str ''  ''). c = space)"
    by (simp add: str_def)
  have letters: "length ?gtable = 27 \<and> (\<exists>c\<in>set (str ''AABC''). c \<noteq> space)"
    by (simp add: str_def)
  have "encode_with_table (str ''AABC'') ?table = Inr (str ''001011'')"
    using encoder_results [of "str ''AABC''" ?table, THEN conjunct1, rule_format, OF present]
    by (simp add: str_def)
  moreover have "encode_with_table (str ''AABD'') ?table = Inl KeyError"
    using encoder_results [of "str ''AABD''" ?table, THEN conjunct2, THEN conjunct1,
        rule_format, OF absent] .
  moreover have "encode (str ''  '') (replicate 26 [] @ [str ''1'']) = Inr (str ''11'')"
    using encoder_results [of "str ''  ''" _ "replicate 26 [] @ [str ''1'']",
        THEN conjunct2, THEN conjunct2, THEN conjunct1, rule_format, OF spaces]
    by (simp add: str_def nth_append)
  moreover have "encode (str ''AABC'') ?gtable = Inl TypeError"
    using encoder_results [of "str ''AABC''" _ ?gtable,
        THEN conjunct2, THEN conjunct2, THEN conjunct2, rule_format, OF letters] .
  ultimately show ?thesis by blast
qed

section \<open>Null tree\<close>

text \<open>
  Claim C6 fails: on \<open>None\<close> the traversal of both files returns at once, so
  \<open>build_encoding_table\<close> does not fail.
\<close>

theorem null_tree_counterexample:
  "\<not> isl (greedy_build_encoding_table None) \<and> length (build_encoding_table None) = 0"
  by (simp add: greedy_build_encoding_table_def build_encoding_table_def)

text \<open>
  Claim C6, amended. On a null tree \<open>build_encoding_table\<close> returns the table it started
  with: the empty dictionary in \<open>Huffman.py\<close>, the list of 27 empty strings in
  \<open>Greedy_Alg.py\<close>.
\<close>

theorem null_tree_table:
  "build_encoding_table None = [] \<and> greedy_build_encoding_table None = Inr (replicate 27 [])"
  by (simp add: greedy_build_encoding_table_def build_encoding_table_def)

section \<open>Tree walk and reverse table\<close>

text \<open>The tree walk along one code, and along the codes of a message: one entry is
  appended for each symbol.\<close>

lemma decode_loop_code:
  "(s, c) \<in> set (codes n) \<Longrightarrow> c \<noteq> [] \<Longrightarrow>
   \<exists>a. get_symbol a = Some s \<and>
       decode_loop (c @ rest) root (Some n) decoded = decode_loop rest root root (decoded @ [a])"
proof (induction c arbitrary: n)
  case Nil
  then show ?case by simp
next
  case (Cons b c)
  obtain f sy l r where n: "n = Node f sy l r" by (cases n)
  from Cons.prems(1) n have sy: "sy = None"
    by (cases sy) auto
  from Cons.prems(1) n sy obtain a where
    a: "step_bit b (Some n) = Inr (Some a)" "(s, c) \<in> set (codes a)"
    by (auto simp: step_bit_def split: option.splits)
  show ?case
  proof (cases "c = []")
    case True
    with a(2) have "get_symbol a = Some s"
      by (cases a; cases "get_symbol a") (auto split: option.splits)
    with a(1) True show ?thesis by auto
  next
    case False
    with a(2) have "get_symbol a = None"
      by (cases a; cases "get_symbol a") auto
    with a(1) Cons.IH [OF a(2) False] show ?thesis by simp
  qed
qed

lemma decode_loop_codes:
  "\<forall>s\<in>set message. (s, code s) \<in> set (codes t) \<and> code s \<noteq> [] \<Longrightarrow>
   \<exists>entries. length entries = length message \<and>
     decode_loop (concat (map code message)) (Some t) (Some t) decoded = Inr (decoded @ entries)"
proof (induction message arbitrary: decoded)
  case Nil
  then show ?case by simp
next
  case (Cons s message)
  then have "(s, code s) \<in> set (codes t)" "code s \<noteq> []" by simp_all
  from decode_loop_code [OF this, of "concat (map code message)" "Some t" decoded]
  obtain a where a: "decode_loop (code s @ concat (map code message)) (Some t) (Some t) decoded
      = decode_loop (concat (map code message)) (Some t) (Some t) (decoded @ [a])"
    by blast
  from Cons.IH [of "decoded @ [a]"] Cons.prems obtain entries where
    "length entries = length message"
    "decode_loop (concat (map code message)) (Some t) (Some t) (decoded @ [a])
       = Inr ((decoded @ [a]) @ entries)"
    by auto
  with a show ?case
    by (intro exI [of _ "a # entries"]) simp
qed

text \<open>
  Claim C7 fails on the code. For a tree built by \<open>huffman\<close> with at least two leaves and
  the encoding of any non-empty message over its symbols, \<open>decode_with_table\<close> returns the
  message, while the tree walk \<open>decode\<close> raises \<open>TypeError\<close>: it has collected the bound
  methods \<open>current.get_symbol\<close> instead of the symbols, and \<open>join\<close> rejects them.
\<close>

theorem decoders_disagree:
  "create_forest frequencies = Inr forest \<and> huffman forest = Inr (Some t)
     \<and> 2 \<le> num_leaves t \<and> table = build_encoding_table (Some t)
     \<and> message \<noteq> [] \<and> set message \<subseteq> set (symbols t) \<longrightarrow>
   (\<exists>enc. encode_with_table message table = Inr enc
      \<and> decode_with_table enc (build_reverse_table table) = message
      \<and> decode enc (Some t) = Inl TypeError)"
proof
  assume a: "create_forest frequencies = Inr forest \<and> huffman forest = Inr (Some t)
     \<and> 2 \<le> num_leaves t \<and> table = build_encoding_table (Some t)
     \<and> message \<noteq> [] \<and> set message \<subseteq> set (symbols t)"
  then have d: "distinct (symbols t)"
    using huffman_tree_facts(1) by blast
  from a have two: "2 \<le> num_leaves t" and table: "table = build_encoding_table (Some t)"
    and ne: "message \<noteq> []" and m: "set message \<subseteq> set (symbols t)"
    by auto
  let ?code = "\<lambda>s. the (map_of table s)"
  note lookup = build_encoding_table_lookup [OF d]
  have dom: "dom (map_of table) = set (symbols t)"
    unfolding table using build_encoding_table_set [OF d]
    by (simp add: dom_map_of_conv_image_fst symbols_def)
  with m have enc: "encode_with_table message table = Inr (concat (map ?code message))"
    by (simp add: encode_with_table_present)
  have codes: "\<forall>s\<in>set message. (s, ?code s) \<in> set (codes t) \<and> ?code s \<noteq> []"
  proof
    fix x assume "x \<in> set message"
    with m dom obtain cx where cx: "map_of table x = Some cx" by blast
    then have "(x, cx) \<in> set (codes t)" using lookup table by simp
    with cx codes_nonempty [OF two this]
    show "(x, ?code x) \<in> set (codes t) \<and> ?code x \<noteq> []" by simp
  qed
  from two obtain s c where sc: "(s, c) \<in> set (codes t)"
    by (cases "codes t") (auto simp: num_leaves_codes)
  from codes_nonempty [OF two sc] have p: "strict_prefix [] c"
    by (cases c) simp_all
  from sc have c: "map_of (build_encoding_table (Some t)) s = Some c"
    using lookup by simp
  have "\<exists>e. encode_with_table message (build_encoding_table (Some t)) = Inr e
      \<and> decode_with_table (e @ []) (build_reverse_table (build_encoding_table (Some t)))
           = message"
    by (rule decode_with_table_pending [OF d m c p])
  with enc table have dec:
    "decode_with_table (concat (map ?code message)) (build_reverse_table table) = message"
    by auto
  from decode_loop_codes [OF codes, of "[]"] obtain entries where
    entries: "length entries = length message"
      "decode_loop (concat (map ?code message)) (Some t) (Some t) [] = Inr entries"
    by auto
  from entries(1) ne have "entries \<noteq> []" by auto
  with entries(2) have "decode (concat (map ?code message)) (Some t) = Inl TypeError"
    by (simp add: decode_def join_methods_def)
  with enc dec show "\<exists>enc. encode_with_table message table = Inr enc
      \<and> decode_with_table enc (build_reverse_table table) = message
      \<and> decode enc (Some t) = Inl TypeError"
    by blast
qed

theorem decoders_disagree_witness:
  "(\<exists>fs. frequency_of_symbols (str ''AABC'') = Inr fs
      \<and> create_forest fs = Inr [leaf 2 65, leaf 1 66, leaf 1 67])
   \<and> huffman [leaf 2 65, leaf 1 66, leaf 1 67] = Inr (Some (new_node (leaf 2 65) (new_node (leaf 1 66) (leaf 1 67))))
   \<and> (\<exists>enc. encode_with_table (str ''AABC'') (build_encoding_table (Some (new_node (leaf 2 65) (new_node (leaf 1 66) (leaf 1 67))))) = Inr enc
      \<and> decode_with_table enc (build_reverse_table (build_encoding_table (Some (new_node (leaf 2 65) (new_node (leaf 1 66) (leaf 1 67))))))
           = str ''AABC''
      \<and> decode enc (Some (new_node (leaf 2 65) (new_node (leaf 1 66) (leaf 1 67)))) = Inl TypeError)"
proof -
  define t where "t = new_node (leaf 2 65) (new_node (leaf 1 66) (leaf 1 67))"
  from forest_AABC obtain fs where
    fs: "frequency_of_symbols (str ''AABC'') = Inr fs"
        "create_forest fs = Inr [leaf 2 65, leaf 1 66, leaf 1 67]"
    by blast
  have h: "huffman [leaf 2 65, leaf 1 66, leaf 1 67] = Inr (Some t)"
    unfolding t_def by (rule tree_AABC)
  have two: "2 \<le> num_leaves t"
    by (simp add: t_def)
  have ne: "str ''AABC'' \<noteq> []"
    by (simp add: str_def)
  have m: "set (str ''AABC'') \<subseteq> set (symbols t)"
    by (simp add: t_def str_def)
  note result = decoders_disagree [of fs "[leaf 2 65, leaf 1 66, leaf 1 67]" t
      "build_encoding_table (Some t)" "str ''AABC''", rule_format,
      OF conjI [OF fs(2) conjI [OF h conjI [OF two conjI [OF refl conjI [OF ne m]]]]]]
  from fs have "\<exists>fs. frequency_of_symbols (str ''AABC'') = Inr fs
      \<and> create_forest fs = Inr [leaf 2 65, leaf 1 66, leaf 1 67]"
    by blast
  with h result show ?thesis
    unfolding t_def by (intro conjI) assumption+
qed

end
